theory Spec2Isabelle
  imports Main "HOL-Library.Multiset" "HOL-Library.Sublist" "HOL-Library.AList"
    "HOL-Library.List_Lexorder" "HOL-Library.Char_ord"
begin

section \<open>Common types\<close>

text \<open>
  Entities are JavaScript numbers used as integer identifiers; component type names are
  the strings \<open>constructor.name\<close>, compared by code unit as \<open>Array.prototype.sort\<close>
  and \<open><\<close> on strings do. \<open>Thrown\<close> is a value thrown by user code.
\<close>

type_synonym Entity = int
type_synonym ComponentTypeName = string

datatype error =
    SparseSetOverflow int int
  | DeadEntity ComponentTypeName Entity
  | DuplicateComponentType ComponentTypeName
  | TypeNotInIndex ComponentTypeName "ComponentTypeName list"
  | TypeError
  | RangeError
  | Thrown nat

section \<open>SparseSet\<close>

text \<open>
  \<open>dense\<close> and \<open>sparse\<close> are \<open>Int32Array\<close>s: fixed length, zero filled, a read out of
  range gives \<open>undefined\<close> (here \<open>None\<close>), a write out of range is ignored, and a stored
  number is wrapped to 32 bits.
\<close>

definition toInt32 :: "int \<Rightarrow> int" where
  "toInt32 v = (v + 2147483648) mod 4294967296 - 2147483648"

definition Int32Array :: "nat \<Rightarrow> int list" where
  "Int32Array n = replicate n 0"

definition ta_get :: "int list \<Rightarrow> int \<Rightarrow> int option" where
  "ta_get a i = (if 0 \<le> i \<and> i < int (length a) then Some (a ! nat i) else None)"

definition ta_put :: "int list \<Rightarrow> int \<Rightarrow> int \<Rightarrow> int list" where
  "ta_put a i v = (if 0 \<le> i \<and> i < int (length a) then a[nat i := toInt32 v] else a)"

text \<open>\<open>target.set(source)\<close> copies \<open>source\<close> over the start of \<open>target\<close>; it raises a
  RangeError when \<open>source\<close> is the longer one.\<close>

definition ta_set :: "int list \<Rightarrow> int list \<Rightarrow> error + int list" where
  "ta_set target source =
     (if length source \<le> length target then Inr (source @ drop (length source) target)
      else Inl RangeError)"

record SparseSet =
  dense :: "int list"
  sparse :: "int list"
  size_s :: nat
  capacity :: nat
  maxCapacity :: int

definition SparseSet_new :: "nat \<Rightarrow> SparseSet" where
  "SparseSet_new cap =
     \<lparr>dense = Int32Array cap, sparse = Int32Array cap, size_s = 0, capacity = cap,
      maxCapacity = 550000\<rparr>"

definition grow :: "SparseSet \<Rightarrow> int \<Rightarrow> error + SparseSet" where
  "grow s v =
     (let newCapacity = max (capacity s * 2) (nat (v + 1)) in
      case ta_set (Int32Array newCapacity) (dense s) of
        Inl e \<Rightarrow> Inl e
      | Inr newDense \<Rightarrow>
          (case ta_set (Int32Array newCapacity) (sparse s) of
             Inl e \<Rightarrow> Inl e
           | Inr newSparse \<Rightarrow>
               Inr (s\<lparr>dense := newDense, sparse := newSparse, capacity := newCapacity\<rparr>)))"

definition SparseSet_add :: "SparseSet \<Rightarrow> int \<Rightarrow> error + (nat \<times> SparseSet)" where
  "SparseSet_add s v =
     (if v \<ge> maxCapacity s then Inl (SparseSetOverflow v (maxCapacity s))
      else case (if v \<ge> int (capacity s) then grow s v else Inr s) of
        Inl e \<Rightarrow> Inl e
      | Inr s1 \<Rightarrow>
          (let index = size_s s1 in
           Inr (index,
                s1\<lparr>dense := ta_put (dense s1) (int index) v,
                   sparse := ta_put (sparse s1) v (int index),
                   size_s := index + 1\<rparr>)))"

text \<open>\<open>sparse[value] < size && dense[sparse[value]] == value\<close>; a comparison with
  \<open>undefined\<close> is false.\<close>

definition SparseSet_has :: "SparseSet \<Rightarrow> int \<Rightarrow> bool" where
  "SparseSet_has s v =
     (case ta_get (sparse s) v of
        None \<Rightarrow> False
      | Some i \<Rightarrow> i < int (size_s s) \<and> ta_get (dense s) i = Some v)"

text \<open>The arrays of a set built by the constructor and \<open>add\<close> have \<open>capacity\<close> elements.\<close>

definition ss_shape :: "SparseSet \<Rightarrow> bool" where
  "ss_shape s \<longleftrightarrow>
     length (dense s) = capacity s \<and> length (sparse s) = capacity s \<and> maxCapacity s = 550000"

text \<open>A set holding the value 1, in arrays of capacity 2.\<close>

definition ss_example :: SparseSet where
  "ss_example =
     \<lparr>dense = [1, 0], sparse = [0, 0], size_s = 1, capacity = 2, maxCapacity = 550000\<rparr>"

section \<open>IdPool\<close>

text \<open>
  The free identifiers are kept as a list of half-open intervals. Identifiers are
  JavaScript numbers holding integers below \<open>2^53\<close>, where the arithmetic of the source
  is exact; they are integers here.
\<close>

record Interval =
  left :: int
  right :: int

definition MAX_SAFE_INTEGER :: int where
  "MAX_SAFE_INTEGER = 9007199254740991"

definition compareIntervals :: "Interval \<Rightarrow> Interval \<Rightarrow> int" where
  "compareIntervals a b =
     (if left a < left b \<and> right a < right b then - 1
      else if left a > left b \<and> right a > right b then 1
      else 0)"

record IdPool =
  free :: "Interval list"

definition IdPool_new :: IdPool where
  "IdPool_new = \<lparr>free = [\<lparr>left = 1, right = MAX_SAFE_INTEGER\<rparr>]\<rparr>"

definition reserve :: "IdPool \<Rightarrow> error + (int \<times> IdPool)" where
  "reserve p =
     (case free p of
        [] \<Rightarrow> Inl TypeError
      | first # rest \<Rightarrow>
          if left first = MAX_SAFE_INTEGER then Inr (0, p)
          else
            let ident = left first in
            if left first + 1 < right first
            then Inr (ident, p\<lparr>free := \<lparr>left = left first + 1, right = right first\<rparr> # rest\<rparr>)
            else if left first + 1 = MAX_SAFE_INTEGER then Inr (0, p)
            else Inr (ident, p\<lparr>free := rest\<rparr>))"

text \<open>\<open>Array.prototype.findIndex\<close>, with \<open>None\<close> for -1.\<close>

fun findIndex :: "('a \<Rightarrow> bool) \<Rightarrow> 'a list \<Rightarrow> nat option" where
  "findIndex P [] = None"
| "findIndex P (x # xs) =
     (if P x then Some 0 else map_option Suc (findIndex P xs))"

text \<open>
  \<open>Array.prototype.sort\<close> with a comparator, as a stable insertion sort. Where the
  comparator is not a consistent ordering of the elements, JavaScript leaves the order of
  the result to the implementation; the evaluated examples sort lists on which the
  comparator is consistent and that are sorted already.
\<close>

fun insert_by :: "('a \<Rightarrow> 'a \<Rightarrow> int) \<Rightarrow> 'a \<Rightarrow> 'a list \<Rightarrow> 'a list" where
  "insert_by cmp x [] = [x]"
| "insert_by cmp x (y # ys) =
     (if cmp x y \<le> 0 then x # y # ys else y # insert_by cmp x ys)"

definition sort_by :: "('a \<Rightarrow> 'a \<Rightarrow> int) \<Rightarrow> 'a list \<Rightarrow> 'a list" where
  "sort_by cmp xs = foldr (insert_by cmp) xs []"

definition contains :: "int \<Rightarrow> Interval \<Rightarrow> bool" where
  "contains ident interval \<longleftrightarrow> left interval \<le> ident \<and> right interval > ident"

definition release :: "IdPool \<Rightarrow> int \<Rightarrow> IdPool" where
  "release p ident =
     (if ident = 0 \<or> ident = MAX_SAFE_INTEGER then p
      else
        let free1 =
          (case findIndex (contains ident) (free p) of
             None \<Rightarrow> free p @ [\<lparr>left = ident, right = ident + 1\<rparr>]
           | Some index \<Rightarrow>
               (let interval = free p ! index in
                take index (free p) @
                [\<lparr>left = left interval, right = ident\<rparr>, \<lparr>left = ident + 1, right = right interval\<rparr>] @
                drop (index + 1) (free p)))
        in p\<lparr>free := sort_by compareIntervals free1\<rparr>)"

text \<open>The results of \<open>n\<close> successive calls of \<open>reserve\<close>.\<close>

fun reserve_many :: "nat \<Rightarrow> IdPool \<Rightarrow> error + int list" where
  "reserve_many 0 p = Inr []"
| "reserve_many (Suc n) p =
     (case reserve p of
        Inl e \<Rightarrow> Inl e
      | Inr (ident, p') \<Rightarrow>
          (case reserve_many n p' of Inl e \<Rightarrow> Inl e | Inr ids \<Rightarrow> Inr (ident # ids)))"

section \<open>Components\<close>

text \<open>
  A component is an object; the core reads only \<open>constructor.name\<close> from it. The second
  field stands for the rest of the object (its identity and data).
\<close>

datatype Component = Component (constructor_name: ComponentTypeName) (payload: nat)

section \<open>IndexBase and IndexIterator\<close>

text \<open>An element of \<open>storage\<close>: an entity, a component, or \<open>undefined\<close>.\<close>

datatype slot = Undefined | EntitySlot Entity | ComponentSlot Component

text \<open>Assignment to an index of a JavaScript array: writing at or past the end extends
  the array, the skipped positions reading \<open>undefined\<close>.\<close>

definition array_put :: "slot list \<Rightarrow> nat \<Rightarrow> slot \<Rightarrow> slot list" where
  "array_put a i v =
     (if i < length a then a[i := v] else a @ replicate (i - length a) Undefined @ [v])"

record IndexBase =
  entityISByEntity :: "Entity \<rightharpoonup> nat"
  storage :: "slot list"
  freeISs :: "nat list"
  addVer :: nat
  addVerObserved :: bool
  remVer :: nat
  remVerObserved :: bool
  types :: "ComponentTypeName list"

definition IndexBase_new :: "ComponentTypeName list \<Rightarrow> IndexBase" where
  "IndexBase_new ts =
     \<lparr>entityISByEntity = Map.empty, storage = [], freeISs = [], addVer = 0,
      addVerObserved = True, remVer = 0, remVerObserved = True, types = ts\<rparr>"

text \<open>\<open>for (iC = 0; iC < nC; ++iC) storage[iS + iC + 1] = components[iC]\<close>, the loop
  counting \<open>iC\<close> up from its first argument.\<close>

function store_components ::
  "nat \<Rightarrow> nat \<Rightarrow> nat \<Rightarrow> Component option list \<Rightarrow> slot list \<Rightarrow> slot list" where
  "store_components iC nC iS components st =
     (if iC < nC
      then store_components (iC + 1) nC iS components
             (array_put st (iS + iC + 1)
                (if iC < length components
                 then (case components ! iC of None \<Rightarrow> Undefined | Some c \<Rightarrow> ComponentSlot c)
                 else Undefined))
      else st)"
  by pat_completeness auto
termination
  by (relation "measure (\<lambda>(iC, nC, iS, components, st). nC - iC)") auto

definition IndexBase_add :: "IndexBase \<Rightarrow> Entity \<Rightarrow> Component option list \<Rightarrow> IndexBase" where
  "IndexBase_add ib entity components =
     (let (iS, free1) =
            (case entityISByEntity ib entity of
               Some i \<Rightarrow> (i, freeISs ib)
             | None \<Rightarrow>
                 (if freeISs ib \<noteq> [] then (last (freeISs ib), butlast (freeISs ib))
                  else (length (storage ib), freeISs ib)));
          nC = length (types ib);
          st1 = array_put (storage ib) iS (EntitySlot entity);
          st2 = store_components 0 nC iS components st1;
          ib1 = ib\<lparr>entityISByEntity := (entityISByEntity ib)(entity \<mapsto> iS),
                   storage := st2, freeISs := free1\<rparr>
      in if addVerObserved ib1 then ib1\<lparr>addVer := addVer ib1 + 1, addVerObserved := False\<rparr>
         else ib1)"

text \<open>The linear search of \<open>emplace\<close> for the position of \<open>type\<close> in \<open>types\<close>.\<close>

fun type_position :: "ComponentTypeName list \<Rightarrow> ComponentTypeName \<Rightarrow> nat \<Rightarrow> nat option" where
  "type_position [] t iC = None"
| "type_position (x # xs) t iC = (if x = t then Some iC else type_position xs t (iC + 1))"

definition IndexBase_emplace ::
  "IndexBase \<Rightarrow> Entity \<Rightarrow> ComponentTypeName \<Rightarrow> Component \<Rightarrow> error + (bool \<times> IndexBase)" where
  "IndexBase_emplace ib entity t component =
     (case entityISByEntity ib entity of
        None \<Rightarrow> Inr (False, ib)
      | Some iS \<Rightarrow>
          (case type_position (types ib) t 0 of
             Some iC \<Rightarrow>
               Inr (True, ib\<lparr>storage := array_put (storage ib) (iS + iC + 1) (ComponentSlot component)\<rparr>)
           | None \<Rightarrow> Inl (TypeNotInIndex t (types ib))))"

function clear_components :: "nat \<Rightarrow> nat \<Rightarrow> nat \<Rightarrow> slot list \<Rightarrow> slot list" where
  "clear_components iC nC iS st =
     (if iC < nC then clear_components (iC + 1) nC iS (array_put st (iS + iC + 1) Undefined)
      else st)"
  by pat_completeness auto
termination
  by (relation "measure (\<lambda>(iC, nC, iS, st). nC - iC)") auto

definition IndexBase_remove :: "IndexBase \<Rightarrow> Entity \<Rightarrow> bool \<times> IndexBase" where
  "IndexBase_remove ib entity =
     (case entityISByEntity ib entity of
        None \<Rightarrow> (False, ib)
      | Some iS \<Rightarrow>
          (let nC = length (types ib);
               st1 = array_put (storage ib) iS Undefined;
               st2 = clear_components 0 nC iS st1;
               ib1 = ib\<lparr>entityISByEntity := (entityISByEntity ib)(entity := None),
                        freeISs := freeISs ib @ [iS], storage := st2\<rparr>
           in (True,
               if remVerObserved ib1 then ib1\<lparr>remVer := remVer ib1 + 1, remVerObserved := False\<rparr>
               else ib1)))"

definition observeAddVer :: "IndexBase \<Rightarrow> nat \<times> IndexBase" where
  "observeAddVer ib = (addVer ib, ib\<lparr>addVerObserved := True\<rparr>)"

definition observeRemVer :: "IndexBase \<Rightarrow> nat \<times> IndexBase" where
  "observeRemVer ib = (remVer ib, ib\<lparr>remVerObserved := True\<rparr>)"

text \<open>
  The iterator refers to its IndexBase: \<open>indexBase\<close> is the reference, and the
  functions below take the current value of that IndexBase and return the updated one. \<open>it_iS\<close>, \<open>it_addVer\<close> and \<open>it_remVer\<close> are
  the symbol-keyed fields; \<open>it_entity\<close> is the field \<open>entity\<close>, \<open>NaN\<close> (here \<open>None\<close>) until \<open>next\<close> finds a record.
\<close>

record IndexIterator =
  indexBase :: nat
  names :: "string list"
  it_iS :: int
  it_addVer :: nat
  it_remVer :: nat
  it_entity :: "Entity option"

definition IndexIteratorBase_new ::
  "nat \<Rightarrow> IndexBase \<Rightarrow> string list \<Rightarrow> IndexIterator \<times> IndexBase" where
  "IndexIteratorBase_new ref ib ns =
     (let nC = length ns;
          (a, ib1) = observeAddVer ib;
          (r, ib2) = observeRemVer ib1
      in (\<lparr>indexBase = ref, names = ns, it_iS = - 1 - int nC, it_addVer = a, it_remVer = r, it_entity = None\<rparr>, ib2))"

definition wasAddedTo :: "IndexIterator \<Rightarrow> IndexBase \<Rightarrow> bool \<times> IndexIterator \<times> IndexBase" where
  "wasAddedTo it ib =
     (let (a, ib1) = observeAddVer ib
      in if it_addVer it \<noteq> a then (True, it\<lparr>it_addVer := a\<rparr>, ib1) else (False, it, ib1))"

definition wasRemovedFrom :: "IndexIterator \<Rightarrow> IndexBase \<Rightarrow> bool \<times> IndexIterator \<times> IndexBase" where
  "wasRemovedFrom it ib =
     (let (r, ib1) = observeRemVer ib
      in if it_remVer it \<noteq> r then (True, it\<lparr>it_remVer := r\<rparr>, ib1) else (False, it, ib1))"

text \<open>Mutations of an IndexBase between two observations, and whether any of them was
  an \<open>add\<close>, or a \<open>remove\<close> that returned \<open>true\<close>.\<close>

datatype mutation = IndexAdd Entity "Component option list" | IndexRemove Entity

fun mutate :: "IndexBase \<Rightarrow> mutation list \<Rightarrow> IndexBase" where
  "mutate ib [] = ib"
| "mutate ib (IndexAdd e cs # ms) = mutate (IndexBase_add ib e cs) ms"
| "mutate ib (IndexRemove e # ms) = mutate (snd (IndexBase_remove ib e)) ms"

fun any_added :: "mutation list \<Rightarrow> bool" where
  "any_added [] = False"
| "any_added (IndexAdd e cs # ms) = True"
| "any_added (IndexRemove e # ms) = any_added ms"

fun any_removed :: "IndexBase \<Rightarrow> mutation list \<Rightarrow> bool" where
  "any_removed ib [] = False"
| "any_removed ib (IndexAdd e cs # ms) = any_removed (IndexBase_add ib e cs) ms"
| "any_removed ib (IndexRemove e # ms) =
     (fst (IndexBase_remove ib e) \<or> any_removed (snd (IndexBase_remove ib e)) ms)"

text \<open>A component of type \<open>A\<close>, for the examples.\<close>

definition cA :: Component where
  "cA = Component ''A'' 0"

section \<open>Trie\<close>

text \<open>
  A trie node has an optional value and an optional \<open>Map\<close> from symbols to child nodes.
  The map is kept as an association list in insertion order, read with \<open>map_of\<close>; an
  absent map and an empty one answer every lookup alike.
\<close>

datatype ('s, 't) Trie = Trie (trie_value: "'t option") (branches: "('s \<times> ('s, 't) Trie) list")

fun getInTrie :: "('s, 't) Trie \<Rightarrow> 's list \<Rightarrow> 't option" where
  "getInTrie t [] = trie_value t"
| "getInTrie t (s # sq) =
     (case map_of (branches t) s of
        None \<Rightarrow> None
      | Some branch \<Rightarrow> getInTrie branch sq)"

fun setInTrie :: "('s, 't) Trie \<Rightarrow> 's list \<Rightarrow> 't \<Rightarrow> ('s, 't) Trie" where
  "setInTrie t [] v = Trie (Some v) (branches t)"
| "setInTrie t (s # sq) v =
     (case map_of (branches t) s of
        None \<Rightarrow> Trie (trie_value t) (branches t @ [(s, setInTrie (Trie None []) sq v)])
      | Some branch \<Rightarrow> Trie (trie_value t) (AList.update s (setInTrie branch sq v) (branches t)))"

text \<open>
  The iterator. \<open>path\<close> and \<open>seqIdx\<close> are JavaScript arrays, kept as maps from
  positions to elements: a position never written reads \<open>undefined\<close>. An element of
  \<open>seqIdx\<close> that is \<open>undefined\<close> or \<open>NaN\<close> is \<open>None\<close>: incrementing it gives \<open>NaN\<close>,
  comparing it gives false, and indexing the sequence with it gives \<open>undefined\<close>.
\<close>

record ('s, 't) TrieSubsequenceIterator =
  path :: "nat \<Rightarrow> ('s, 't) Trie option"
  seqIdx :: "nat \<Rightarrow> int option"
  pathLen :: nat
  seq :: "'s list option"
  it_value :: "'t option"

definition reset ::
  "'s list option \<Rightarrow> ('s, 't) Trie option \<Rightarrow> ('s, 't) TrieSubsequenceIterator \<Rightarrow>
   ('s, 't) TrieSubsequenceIterator" where
  "reset sq trie it =
     (let it1 = (case trie of Some t \<Rightarrow> it\<lparr>path := (path it)(0 \<mapsto> t)\<rparr> | None \<Rightarrow> it);
          it2 = (case sq of Some s \<Rightarrow> it1\<lparr>seq := Some s\<rparr> | None \<Rightarrow> it1);
          it3 = it2\<lparr>pathLen := 0\<rparr>;
          it4 = (case seq it3 of
                   Some s \<Rightarrow> it3\<lparr>seqIdx := (\<lambda>i. if i < length s then seqIdx it3 i else None)\<rparr>
                 | None \<Rightarrow> it3)
      in it4\<lparr>seqIdx := (seqIdx it4)(0 \<mapsto> 0), it_value := None\<rparr>)"

definition TrieSubsequenceIterator_new ::
  "'s list \<Rightarrow> ('s, 't) Trie \<Rightarrow> ('s, 't) TrieSubsequenceIterator" where
  "TrieSubsequenceIterator_new sq trie =
     reset (Some sq) (Some trie)
       \<lparr>path = (\<lambda>_. None), seqIdx = (\<lambda>_. None), pathLen = 0, seq = None, it_value = None\<rparr>"

definition seq_at :: "'s list \<Rightarrow> int option \<Rightarrow> 's option" where
  "seq_at sq i =
     (case i of
        None \<Rightarrow> None
      | Some j \<Rightarrow> if 0 \<le> j \<and> j < int (length sq) then Some (sq ! nat j) else None)"

definition idx_ge :: "int option \<Rightarrow> nat \<Rightarrow> bool" where
  "idx_ge i n = (case i of None \<Rightarrow> False | Some j \<Rightarrow> j \<ge> int n)"

definition get_branch :: "('s, 't) Trie \<Rightarrow> 's option \<Rightarrow> ('s, 't) Trie option" where
  "get_branch trie s = (case s of None \<Rightarrow> None | Some x \<Rightarrow> map_of (branches trie) x)"

text \<open>
  The inner loop \<open>while (++this.seqIdx[pathLen] >= seqLen) { ... --pathLen; }\<close> of
  \<open>next\<close>, on the local variable \<open>pathLen\<close>. \<open>Inl\<close> is \<open>return false\<close>; \<open>Inr\<close> is the
  normal exit of the loop, after \<open>this.pathLen = pathLen\<close>.
\<close>

fun backtrack ::
  "nat \<Rightarrow> nat \<Rightarrow> ('s, 't) TrieSubsequenceIterator \<Rightarrow>
   ('s, 't) TrieSubsequenceIterator + ('s, 't) TrieSubsequenceIterator" where
  "backtrack seqLen pl it =
     (let it1 = it\<lparr>seqIdx := (seqIdx it)(pl := map_option (\<lambda>i. i + 1) (seqIdx it pl))\<rparr> in
      if idx_ge (seqIdx it1 pl) seqLen then
        (let it2 = it1\<lparr>seqIdx := (seqIdx it1)(pl \<mapsto> - 1)\<rparr> in
         case pl of
           0 \<Rightarrow> Inl it2
         | Suc pl' \<Rightarrow> backtrack seqLen pl' (it2\<lparr>path := (path it2)(pl := None)\<rparr>))
      else Inr (it1\<lparr>pathLen := pl\<rparr>))"

text \<open>The \<open>while (true)\<close> loop of \<open>next\<close>. \<open>None\<close> is a loop that never returns;
  \<open>Inl TypeError\<close> is the read of \<open>branches\<close> from an \<open>undefined\<close> path element.\<close>

partial_function (option) next_loop ::
  "'s list \<Rightarrow> ('s, 't) TrieSubsequenceIterator \<Rightarrow>
   (error + bool \<times> ('s, 't) TrieSubsequenceIterator) option" where
  "next_loop sq it =
     (case path it (pathLen it) of
        None \<Rightarrow> Some (Inl TypeError)
      | Some trie \<Rightarrow>
          (case get_branch trie (seq_at sq (seqIdx it (pathLen it))) of
             Some branch \<Rightarrow>
               (let pl = pathLen it + 1;
                    it1 = it\<lparr>pathLen := pl, path := (path it)(pl \<mapsto> branch),
                             seqIdx := (seqIdx it)(pl := map_option (\<lambda>i. i + 1) (seqIdx it (pl - 1)))\<rparr>
                in if trie_value branch \<noteq> None
                   then Some (Inr (True, it1\<lparr>it_value := trie_value branch\<rparr>))
                   else if idx_ge (seqIdx it1 pl) (length sq)
                   then (case backtrack (length sq) pl it1 of
                           Inl it2 \<Rightarrow> Some (Inr (False, it2))
                         | Inr it2 \<Rightarrow> next_loop sq it2)
                   else next_loop sq it1)
           | None \<Rightarrow>
               (case backtrack (length sq) (pathLen it) it of
                  Inl it2 \<Rightarrow> Some (Inr (False, it2))
                | Inr it2 \<Rightarrow> next_loop sq it2)))"

definition "next" ::
  "('s, 't) TrieSubsequenceIterator \<Rightarrow>
   (error + bool \<times> ('s, 't) TrieSubsequenceIterator) option" where
  "next it =
     (case (seq it, path it 0) of
        (Some sq, Some rootTrie) \<Rightarrow>
          if it_value it = None \<and> pathLen it = 0 \<and> trie_value rootTrie \<noteq> None
          then Some (Inr (True, it\<lparr>it_value := trie_value rootTrie\<rparr>))
          else next_loop sq it
      | _ \<Rightarrow> Some (Inr (False, it)))"

text \<open>
  The loop \<open>for (it.reset(...); it.next(); ) { body }\<close> of the callers, on a state that
  the body updates; the body reads \<open>it.value\<close> and may throw. \<open>fold_steps\<close> runs such a
  body over a list of values, and \<open>drain\<close> is the loop that collects the values.
\<close>

partial_function (option) for_each ::
  "('t option \<Rightarrow> 'a \<Rightarrow> error option \<times> 'a) \<Rightarrow> ('s, 't) TrieSubsequenceIterator \<Rightarrow> 'a \<Rightarrow>
   (error option \<times> 'a) option" where
  "for_each body it a =
     (case next it of
        None \<Rightarrow> None
      | Some (Inl e) \<Rightarrow> Some (Some e, a)
      | Some (Inr (found, it')) \<Rightarrow>
          if found
          then (case body (it_value it') a of
                  (Some e, a') \<Rightarrow> Some (Some e, a')
                | (None, a') \<Rightarrow> for_each body it' a')
          else Some (None, a))"

fun fold_steps :: "('b \<Rightarrow> 'a \<Rightarrow> error option \<times> 'a) \<Rightarrow> 'b list \<Rightarrow> 'a \<Rightarrow> error option \<times> 'a" where
  "fold_steps body [] a = (None, a)"
| "fold_steps body (x # xs) a =
     (case body x a of
        (Some e, a') \<Rightarrow> (Some e, a')
      | (None, a') \<Rightarrow> fold_steps body xs a')"

definition drain ::
  "('s, 't) TrieSubsequenceIterator \<Rightarrow> (error option \<times> 't option list) option" where
  "drain it = for_each (\<lambda>v vs. (None, vs @ [v])) it []"

text \<open>
  What the traversal has to deliver, by recursion on the query sequence: the values below
  a node along subsequences of the rest of the query, in the order of a depth-first
  search that tries the positions of the query from left to right. \<open>work\<close> bounds the
  number of steps of that search. The other functions read the pending part of the search
  off an iterator state: the frame at \<open>pathLen\<close> still has to try the positions from
  its index on, the frames below it the positions after their index.
\<close>

fun own_value :: "('s, 't) Trie \<Rightarrow> 't list" where
  "own_value t = (case trie_value t of None \<Rightarrow> [] | Some v \<Rightarrow> [v])"

fun children :: "('s, 't) Trie \<Rightarrow> 's list \<Rightarrow> 't list" where
  "children t [] = []"
| "children t (x # xs) =
     (case map_of (branches t) x of
        None \<Rightarrow> []
      | Some b \<Rightarrow> own_value b @ children b xs) @ children t xs"

fun work :: "('s, 't) Trie \<Rightarrow> 's list \<Rightarrow> nat" where
  "work t [] = 0"
| "work t (x # xs) =
     1 + (case map_of (branches t) x of None \<Rightarrow> 0 | Some b \<Rightarrow> 1 + work b xs) + work t xs"

definition subsequence_values :: "('s, 't) Trie \<Rightarrow> 's list \<Rightarrow> 't list" where
  "subsequence_values t q = own_value t @ children t q"

definition frame_trie :: "('s, 't) TrieSubsequenceIterator \<Rightarrow> nat \<Rightarrow> ('s, 't) Trie" where
  "frame_trie it k = the (path it k)"

definition frame_idx :: "('s, 't) TrieSubsequenceIterator \<Rightarrow> nat \<Rightarrow> nat" where
  "frame_idx it k = nat (the (seqIdx it k))"

fun below :: "'s list \<Rightarrow> ('s, 't) TrieSubsequenceIterator \<Rightarrow> nat \<Rightarrow> 't list" where
  "below sq it 0 = []"
| "below sq it (Suc k) = children (frame_trie it k) (drop (frame_idx it k + 1) sq) @ below sq it k"

fun below_work :: "'s list \<Rightarrow> ('s, 't) TrieSubsequenceIterator \<Rightarrow> nat \<Rightarrow> nat" where
  "below_work sq it 0 = 0"
| "below_work sq it (Suc k) = work (frame_trie it k) (drop (frame_idx it k + 1) sq) + below_work sq it k"

definition remaining :: "'s list \<Rightarrow> ('s, 't) TrieSubsequenceIterator \<Rightarrow> 't list" where
  "remaining sq it =
     children (frame_trie it (pathLen it)) (drop (frame_idx it (pathLen it)) sq) @
     below sq it (pathLen it)"

definition mu :: "'s list \<Rightarrow> ('s, 't) TrieSubsequenceIterator \<Rightarrow> nat" where
  "mu sq it =
     2 * (work (frame_trie it (pathLen it)) (drop (frame_idx it (pathLen it)) sq) +
          below_work sq it (pathLen it)) + pathLen it"

definition frames_ok :: "('s, 't) TrieSubsequenceIterator \<Rightarrow> nat \<Rightarrow> bool" where
  "frames_ok it pl \<longleftrightarrow> (\<forall>k \<le> pl. path it k \<noteq> None \<and> (\<exists>i. seqIdx it k = Some i \<and> 0 \<le> i))"


definition root_pending :: "('s, 't) TrieSubsequenceIterator \<Rightarrow> 't list" where
  "root_pending it =
     (if it_value it = None \<and> pathLen it = 0 then own_value (frame_trie it 0) else [])"

definition remaining_full :: "'s list \<Rightarrow> ('s, 't) TrieSubsequenceIterator \<Rightarrow> 't list" where
  "remaining_full sq it = root_pending it @ remaining sq it"


text \<open>A trie holding 10 at the path \<open>[1, 2]\<close> and 20 at the path \<open>[2]\<close>.\<close>

definition trie_example :: "(nat, nat) Trie" where
  "trie_example = setInTrie (setInTrie (Trie None []) [1, 2] 10) [2] 20"

section \<open>World\<close>

text \<open>
  The World of the index-based variant. \<open>entities\<close> is a \<open>Set\<close>, kept as the list of its
  elements in insertion order; \<open>components\<close> is an object keyed by type name, kept as an
  association list in insertion order, each stor a map from entities to components.
  The IndexBase objects are shared between \<open>indexByComponents\<close> and
  \<open>indexesByComponent\<close>: both hold references, which are positions in \<open>indexBases\<close>.

  The scratch arrays (\<open>create_typesP\<close>, \<open>create_ecs\<close>, \<open>index_specs\<close>, \<open>index_ecs\<close>) are
  written before they are read in every call and are local values here. The shared
  \<open>indexByComponentsSubIt\<close> is reset before every use and its \<open>path[0]\<close> is the root
  object of \<open>indexByComponents\<close>; \<open>World_subIt\<close> is that iterator. The optional hooks
  \<open>added\<close> and \<open>removed\<close> of components and the optional entity tracker are taken to be
  absent; the \<open>free\<close> hooks are a parameter of \<open>destroy\<close>.
\<close>

record World =
  entitySequence :: Entity
  entities :: "Entity list"
  components :: "(ComponentTypeName \<times> (Entity \<rightharpoonup> Component)) list"
  indexesByComponent :: "ComponentTypeName \<rightharpoonup> nat list"
  indexByComponents :: "(ComponentTypeName, nat) Trie"
  indexBases :: "IndexBase list"

definition World_new :: World where
  "World_new =
     \<lparr>entitySequence = 0, entities = [], components = [], indexesByComponent = Map.empty,
      indexByComponents = Trie None [], indexBases = []\<rparr>"

definition Null :: Entity where
  "Null = - 1"

definition singletonEntity :: Entity where
  "singletonEntity = - 2"

definition World_subIt :: "World \<Rightarrow> (ComponentTypeName, nat) TrieSubsequenceIterator" where
  "World_subIt w = TrieSubsequenceIterator_new [] (indexByComponents w)"

text \<open>\<open>Set.prototype.add\<close> and \<open>Set.prototype.delete\<close>.\<close>

definition set_add :: "Entity \<Rightarrow> Entity list \<Rightarrow> Entity list" where
  "set_add e es = (if e \<in> set es then es else es @ [e])"

definition set_delete :: "Entity \<Rightarrow> Entity list \<Rightarrow> Entity list" where
  "set_delete e es = removeAll e es"

text \<open>Dereferencing and updating an IndexBase; a reference that points to no IndexBase
  does not arise in JavaScript and reads as \<open>undefined\<close> here.\<close>

definition lookup_index :: "World \<Rightarrow> nat \<Rightarrow> IndexBase option" where
  "lookup_index w a = (if a < length (indexBases w) then Some (indexBases w ! a) else None)"

definition put_index :: "World \<Rightarrow> nat \<Rightarrow> IndexBase \<Rightarrow> World" where
  "put_index w a ib = w\<lparr>indexBases := (indexBases w)[a := ib]\<rparr>"

text \<open>\<open>if (stor == null) components[type] = {}; components[type][entity] = component\<close>.\<close>

definition store_component :: "World \<Rightarrow> Entity \<Rightarrow> Component \<Rightarrow> World" where
  "store_component w entity component =
     (let type = constructor_name component;
          stor = (case map_of (components w) type of None \<Rightarrow> Map.empty | Some st \<Rightarrow> st)
      in w\<lparr>components := AList.update type (stor(entity \<mapsto> component)) (components w)\<rparr>)"

text \<open>\<open>if (this.components[type] === undefined) this.components[type] = {}\<close>.\<close>

definition register_type :: "World \<Rightarrow> ComponentTypeName \<Rightarrow> World" where
  "register_type w type =
     (case map_of (components w) type of
        None \<Rightarrow> w\<lparr>components := components w @ [(type, Map.empty)]\<rparr>
      | Some st \<Rightarrow> w)"

text \<open>The duplicate check of \<open>create\<close> and \<open>index\<close> on a sorted list of type names.\<close>

fun first_duplicate :: "ComponentTypeName option \<Rightarrow> ComponentTypeName list \<Rightarrow> ComponentTypeName option" where
  "first_duplicate prevType [] = None"
| "first_duplicate prevType (t # ts) =
     (if Some t = prevType then Some t else first_duplicate (Some t) ts)"

text \<open>\<open>ecs[iIC] = componentsByTypeByEntity[typesI[iIC]][entity]\<close> for each type of an
  index, as \<open>create\<close> does it: a missing stor is a TypeError, a missing component is
  stored as \<open>undefined\<close>.\<close>

fun gather :: "(ComponentTypeName \<times> (Entity \<rightharpoonup> Component)) list \<Rightarrow> Entity \<Rightarrow>
    ComponentTypeName list \<Rightarrow> error + Component option list" where
  "gather cs entity [] = Inr []"
| "gather cs entity (t # ts) =
     (case map_of cs t of
        None \<Rightarrow> Inl TypeError
      | Some stor \<Rightarrow>
          (case gather cs entity ts of
             Inl e \<Rightarrow> Inl e
           | Inr ecs \<Rightarrow> Inr (stor entity # ecs)))"

text \<open>The same loop as \<open>emplace\<close> and \<open>index\<close> do it: a missing component leaves the
  loop and skips the index (\<open>Inr None\<close>).\<close>

fun gather_all :: "(ComponentTypeName \<times> (Entity \<rightharpoonup> Component)) list \<Rightarrow> Entity \<Rightarrow>
    ComponentTypeName list \<Rightarrow> error + Component list option" where
  "gather_all cs entity [] = Inr (Some [])"
| "gather_all cs entity (t # ts) =
     (case map_of cs t of
        None \<Rightarrow> Inl TypeError
      | Some stor \<Rightarrow>
          (case stor entity of
             None \<Rightarrow> Inr None
           | Some ec \<Rightarrow>
               (case gather_all cs entity ts of
                  Inl e \<Rightarrow> Inl e
                | Inr None \<Rightarrow> Inr None
                | Inr (Some ecs) \<Rightarrow> Inr (Some (ec # ecs)))))"

definition World_exists :: "World \<Rightarrow> Entity \<Rightarrow> bool" where
  "World_exists w entity \<longleftrightarrow> entity \<in> set (entities w)"

definition World_get :: "World \<Rightarrow> Entity \<Rightarrow> ComponentTypeName \<Rightarrow> Component option" where
  "World_get w entity type =
     (case map_of (components w) type of
        None \<Rightarrow> None
      | Some stor \<Rightarrow> stor entity)"

definition World_has :: "World \<Rightarrow> Entity \<Rightarrow> ComponentTypeName \<Rightarrow> bool" where
  "World_has w entity type =
     (case map_of (components w) type of
        None \<Rightarrow> False
      | Some stor \<Rightarrow> stor entity \<noteq> None)"

text \<open>The loop of \<open>emplace\<close> over \<open>indexesByComponent.get(type)\<close>.\<close>

fun emplace_indexes ::
  "Entity \<Rightarrow> ComponentTypeName \<Rightarrow> Component \<Rightarrow> nat list \<Rightarrow> World \<Rightarrow> error option \<times> World" where
  "emplace_indexes entity type component [] w = (None, w)"
| "emplace_indexes entity type component (a # as) w =
     (case lookup_index w a of
        None \<Rightarrow> (Some TypeError, w)
      | Some index \<Rightarrow>
          (case IndexBase_emplace index entity type component of
             Inl e \<Rightarrow> (Some e, w)
           | Inr (updated, index') \<Rightarrow>
               if updated then emplace_indexes entity type component as (put_index w a index')
               else
                 (case gather_all (components w) entity (types index) of
                    Inl e \<Rightarrow> (Some e, w)
                  | Inr None \<Rightarrow> emplace_indexes entity type component as w
                  | Inr (Some ecs) \<Rightarrow>
                      emplace_indexes entity type component as
                        (put_index w a (IndexBase_add index entity (map Some ecs))))))"

definition World_emplace :: "World \<Rightarrow> Entity \<Rightarrow> Component \<Rightarrow> error option \<times> World" where
  "World_emplace w entity component =
     (let type = constructor_name component in
      if entity \<notin> set (entities w) then (Some (DeadEntity type entity), w)
      else
        let w1 = store_component w entity component in
        case indexesByComponent w1 type of
          None \<Rightarrow> (None, w1)
        | Some indexes \<Rightarrow> emplace_indexes entity type component indexes w1)"

text \<open>The body of the loop of \<open>create\<close> over the indexes found by the iterator.\<close>

definition create_add :: "Entity \<Rightarrow> nat option \<Rightarrow> World \<Rightarrow> error option \<times> World" where
  "create_add entity v w =
     (case v of
        None \<Rightarrow> (Some TypeError, w)
      | Some a \<Rightarrow>
          (case lookup_index w a of
             None \<Rightarrow> (Some TypeError, w)
           | Some index \<Rightarrow>
               (case gather (components w) entity (types index) of
                  Inl e \<Rightarrow> (Some e, w)
                | Inr ecs \<Rightarrow> (None, put_index w a (IndexBase_add index entity ecs)))))"

definition World_create :: "World \<Rightarrow> Component list \<Rightarrow> ((error + Entity) \<times> World) option" where
  "World_create w cs =
     (let entity = entitySequence w;
          w1 = w\<lparr>entitySequence := entity + 1, entities := set_add entity (entities w)\<rparr>;
          w2 = fold (\<lambda>component w. store_component w entity component) cs w1;
          typesP = sort (map constructor_name cs)
      in case first_duplicate None typesP of
           Some typeP \<Rightarrow> Some (Inl (DuplicateComponentType typeP), w2)
         | None \<Rightarrow>
             (case for_each (create_add entity) (reset (Some typesP) None (World_subIt w2)) w2 of
                None \<Rightarrow> None
              | Some (Some e, w3) \<Rightarrow> Some (Inl e, w3)
              | Some (None, w3) \<Rightarrow> Some (Inr entity, w3)))"

text \<open>The loop of \<open>insert\<close> over the components; an exception of \<open>emplace\<close> ends it.\<close>

fun emplace_each :: "Entity \<Rightarrow> Component list \<Rightarrow> World \<Rightarrow> error option \<times> World" where
  "emplace_each entity [] w = (None, w)"
| "emplace_each entity (c # cs) w =
     (case World_emplace w entity c of
        (Some e, w') \<Rightarrow> (Some e, w')
      | (None, w') \<Rightarrow> emplace_each entity cs w')"

definition World_insert :: "World \<Rightarrow> Entity \<Rightarrow> Component list \<Rightarrow> (error + Entity) \<times> World" where
  "World_insert w entity cs =
     (let w1 = (if entity > entitySequence w then w\<lparr>entitySequence := entity + 1\<rparr> else w);
          w2 = w1\<lparr>entities := set_add entity (entities w1)\<rparr>
      in case emplace_each entity cs w2 of
           (Some e, w3) \<Rightarrow> (Inl e, w3)
         | (None, w3) \<Rightarrow> (Inr entity, w3))"

definition registerSingleton :: "World \<Rightarrow> Component \<Rightarrow> error option \<times> World" where
  "registerSingleton w component =
     (let w1 = (if singletonEntity \<notin> set (entities w)
                then w\<lparr>entities := set_add singletonEntity (entities w)\<rparr> else w)
      in World_emplace w1 singletonEntity component)"

definition getSingleton :: "World \<Rightarrow> ComponentTypeName \<Rightarrow> Component option" where
  "getSingleton w type = World_get w singletonEntity type"

text \<open>Removing an entity from one referenced index.\<close>

definition remove_from_index :: "Entity \<Rightarrow> nat \<Rightarrow> World \<Rightarrow> error option \<times> World" where
  "remove_from_index entity a w =
     (case lookup_index w a of
        None \<Rightarrow> (Some TypeError, w)
      | Some index \<Rightarrow> (None, put_index w a (snd (IndexBase_remove index entity))))"

definition World_remove ::
  "World \<Rightarrow> Entity \<Rightarrow> ComponentTypeName \<Rightarrow> (error + Component option) \<times> World" where
  "World_remove w entity type =
     (case map_of (components w) type of
        None \<Rightarrow> (Inr None, w)
      | Some stor \<Rightarrow>
          (let component = stor entity;
               w1 = w\<lparr>components := AList.update type (stor(entity := None)) (components w)\<rparr>
           in case component of
                None \<Rightarrow> (Inr None, w1)
              | Some c \<Rightarrow>
                  (case indexesByComponent w1 type of
                     None \<Rightarrow> (Inr (Some c), w1)
                   | Some indexes \<Rightarrow>
                       (case fold_steps (remove_from_index entity) indexes w1 of
                          (Some e, w2) \<Rightarrow> (Inl e, w2)
                        | (None, w2) \<Rightarrow> (Inr (Some c), w2)))))"

definition removeSingleton :: "World \<Rightarrow> ComponentTypeName \<Rightarrow> error option \<times> World" where
  "removeSingleton w type =
     (if singletonEntity \<notin> set (entities w) then (None, w)
      else case World_remove w singletonEntity type of
             (Inl e, w') \<Rightarrow> (Some e, w')
           | (Inr c, w') \<Rightarrow> (None, w'))"

text \<open>\<open>size()\<close> without an argument, and \<open>all()\<close>.\<close>

definition World_size :: "World \<Rightarrow> nat" where
  "World_size w = length (entities w)"

definition World_all :: "World \<Rightarrow> Entity list" where
  "World_all w = entities w"

text \<open>
  The \<open>free\<close> hooks are user code that receives the world and the entity; \<open>hooks c\<close>
  is the \<open>free\<close> property of the component \<open>c\<close> (\<open>None\<close> when it has none). A hook
  returns the world as it left it, and the error it threw, if any.
\<close>

type_synonym free_hook = "World \<Rightarrow> Entity \<Rightarrow> error option \<times> World"

text \<open>The loop \<open>for (const key in this.components)\<close> of \<open>destroy\<close>: the type names and
  the components with a \<open>free\<close> hook, in the order of the keys, and the storages with the
  entity deleted.\<close>

fun destroy_collect ::
  "(Component \<Rightarrow> free_hook option) \<Rightarrow> Entity \<Rightarrow>
   (ComponentTypeName \<times> (Entity \<rightharpoonup> Component)) list \<Rightarrow>
   ComponentTypeName list \<times> Component list \<times> (ComponentTypeName \<times> (Entity \<rightharpoonup> Component)) list" where
  "destroy_collect hooks entity [] = ([], [], [])"
| "destroy_collect hooks entity ((key, stor) # rest) =
     (let (tys, freeComponents, rest') = destroy_collect hooks entity rest in
      case stor entity of
        None \<Rightarrow> (tys, freeComponents, (key, stor(entity := None)) # rest')
      | Some component \<Rightarrow>
          (constructor_name component # tys,
           (if hooks component \<noteq> None then component # freeComponents else freeComponents),
           (key, stor(entity := None)) # rest'))"

definition destroy_remove :: "Entity \<Rightarrow> nat option \<Rightarrow> World \<Rightarrow> error option \<times> World" where
  "destroy_remove entity v w =
     (case v of
        None \<Rightarrow> (Some TypeError, w)
      | Some a \<Rightarrow> remove_from_index entity a w)"

text \<open>Everything \<open>destroy\<close> does before it calls the \<open>free\<close> hooks.\<close>

definition destroy_cleanup ::
  "(Component \<Rightarrow> free_hook option) \<Rightarrow> World \<Rightarrow> Entity \<Rightarrow>
   (error option \<times> Component list \<times> World) option" where
  "destroy_cleanup hooks w entity =
     (let w1 = w\<lparr>entities := set_delete entity (entities w)\<rparr>;
          (tys, freeComponents, cs) = destroy_collect hooks entity (components w1);
          w2 = w1\<lparr>components := cs\<rparr>;
          sorted_tys = sort tys
      in case for_each (destroy_remove entity) (reset (Some sorted_tys) None (World_subIt w2)) w2 of
           None \<Rightarrow> None
         | Some (e, w3) \<Rightarrow> Some (e, freeComponents, w3))"

text \<open>The final loop of \<open>destroy\<close> over \<open>freeComponents\<close>.\<close>

fun free_loop ::
  "(Component \<Rightarrow> free_hook option) \<Rightarrow> Entity \<Rightarrow> Component list \<Rightarrow> World \<Rightarrow>
   error option \<times> World" where
  "free_loop hooks entity [] w = (None, w)"
| "free_loop hooks entity (c # cs) w =
     (case hooks c of
        None \<Rightarrow> free_loop hooks entity cs w
      | Some hook \<Rightarrow>
          (case hook w entity of
             (Some e, w') \<Rightarrow> (Some e, w')
           | (None, w') \<Rightarrow> free_loop hooks entity cs w'))"

definition World_destroy ::
  "(Component \<Rightarrow> free_hook option) \<Rightarrow> World \<Rightarrow> Entity \<Rightarrow> (error option \<times> World) option" where
  "World_destroy hooks w entity =
     (case destroy_cleanup hooks w entity of
        None \<Rightarrow> None
      | Some (Some e, freeComponents, w3) \<Rightarrow> Some (Some e, w3)
      | Some (None, freeComponents, w3) \<Rightarrow> Some (free_loop hooks entity freeComponents w3))"



text \<open>\<open>index\<close>. An IndexSpec is an object from names to component classes, kept as the
  list of its (name, type name) pairs in the order of \<open>Object.keys\<close>.\<close>

definition index_indexComponentSpecOrd ::
  "string \<times> ComponentTypeName \<Rightarrow> string \<times> ComponentTypeName \<Rightarrow> int" where
  "index_indexComponentSpecOrd a b =
     (if snd a = snd b then 0 else if snd a < snd b then - 1 else 1)"

definition register_index ::
  "nat \<Rightarrow> ComponentTypeName list \<Rightarrow> (ComponentTypeName \<rightharpoonup> nat list) \<Rightarrow>
   (ComponentTypeName \<rightharpoonup> nat list)" where
  "register_index a tys m =
     fold (\<lambda>c m. case m c of Some indexes \<Rightarrow> m(c \<mapsto> indexes @ [a]) | None \<Rightarrow> m(c \<mapsto> [a])) tys m"

fun seed_index ::
  "nat \<Rightarrow> ComponentTypeName list \<Rightarrow> Entity list \<Rightarrow> World \<Rightarrow> error option \<times> World" where
  "seed_index a tys [] w = (None, w)"
| "seed_index a tys (entity # es) w =
     (case gather_all (components w) entity tys of
        Inl e \<Rightarrow> (Some e, w)
      | Inr None \<Rightarrow> seed_index a tys es w
      | Inr (Some ecs) \<Rightarrow>
          (case lookup_index w a of
             None \<Rightarrow> (Some TypeError, w)
           | Some ib \<Rightarrow>
               seed_index a tys es (put_index w a (IndexBase_add ib entity (map Some ecs)))))"

definition new_iterator :: "World \<Rightarrow> nat \<Rightarrow> string list \<Rightarrow> (error + IndexIterator) \<times> World" where
  "new_iterator w a ns =
     (case lookup_index w a of
        None \<Rightarrow> (Inl TypeError, w)
      | Some ib \<Rightarrow>
          (let (it, ib1) = IndexIteratorBase_new a ib ns
           in (Inr it, put_index w a ib1)))"

definition World_index ::
  "World \<Rightarrow> (string \<times> ComponentTypeName) list \<Rightarrow> (error + IndexIterator) \<times> World" where
  "World_index w indexSpec =
     (let w1 = fold (\<lambda>(name, type) w. register_type w type) indexSpec w;
          specs = sort_by index_indexComponentSpecOrd indexSpec;
          ns = map fst specs;
          tys = map snd specs
      in case first_duplicate None tys of
           Some t \<Rightarrow> (Inl (DuplicateComponentType t), w1)
         | None \<Rightarrow>
             (case getInTrie (indexByComponents w1) tys of
                Some a \<Rightarrow> new_iterator w1 a ns
              | None \<Rightarrow>
                  (let a = length (indexBases w1);
                       w2 = w1\<lparr>indexBases := indexBases w1 @ [IndexBase_new tys],
                               indexByComponents := setInTrie (indexByComponents w1) tys a,
                               indexesByComponent := register_index a tys (indexesByComponent w1)\<rparr>
                   in case seed_index a tys (entities w2) w2 of
                        (Some e, w3) \<Rightarrow> (Inl e, w3)
                      | (None, w3) \<Rightarrow> new_iterator w3 a ns)))"

text \<open>
  The public operations that change a world, and the worlds that sequences of them
  produce from a new world. An operation that throws leaves the world as it was when the
  exception was raised. \<open>destroy\<close> is run with components that have no \<open>free\<close> hook;
  \<open>clear\<close> is a sequence of such calls.
\<close>

datatype world_op =
    Create "Component list"
  | Insert Entity "Component list"
  | Emplace Entity Component
  | Remove Entity ComponentTypeName
  | Destroy Entity
  | Index "(string \<times> ComponentTypeName) list"
  | RegisterSingleton Component
  | RemoveSingleton ComponentTypeName

fun apply_op :: "World \<Rightarrow> world_op \<Rightarrow> World option" where
  "apply_op w (Create cs) = map_option snd (World_create w cs)"
| "apply_op w (Insert entity cs) = Some (snd (World_insert w entity cs))"
| "apply_op w (Emplace entity c) = Some (snd (World_emplace w entity c))"
| "apply_op w (Remove entity t) = Some (snd (World_remove w entity t))"
| "apply_op w (Destroy entity) = map_option snd (World_destroy (\<lambda>c. None) w entity)"
| "apply_op w (Index indexSpec) = Some (snd (World_index w indexSpec))"
| "apply_op w (RegisterSingleton c) = Some (snd (registerSingleton w c))"
| "apply_op w (RemoveSingleton t) = Some (snd (removeSingleton w t))"

inductive reachable :: "World \<Rightarrow> bool" where
  new: "reachable World_new"
| step: "reachable w \<Longrightarrow> apply_op w op = Some w' \<Longrightarrow> reachable w'"

text \<open>
  Everything of a world that the operations on a single IndexBase leave alone: all fields
  but \<open>indexBases\<close>, and of each IndexBase its \<open>types\<close>. The invariant of the worlds
  that the public operations produce speaks of this part only: the entity sequence is not
  negative; a component is stored under its own type name and only for a live entity;
  every key of the trie of indexes is sorted and duplicate-free and leads to an allocated
  IndexBase with these types.
\<close>

definition skeleton ::
  "World \<Rightarrow> Entity \<times> Entity list \<times> (ComponentTypeName \<times> (Entity \<rightharpoonup> Component)) list \<times>
     (ComponentTypeName \<rightharpoonup> nat list) \<times> (ComponentTypeName, nat) Trie \<times> ComponentTypeName list list" where
  "skeleton w =
     (entitySequence w, entities w, components w, indexesByComponent w, indexByComponents w,
      map types (indexBases w))"

definition comps_ok :: "Entity list \<Rightarrow> (ComponentTypeName \<times> (Entity \<rightharpoonup> Component)) list \<Rightarrow> bool" where
  "comps_ok es cs \<longleftrightarrow>
     (\<forall>(T, stor) \<in> set cs. \<forall>e c. stor e = Some c \<longrightarrow> e \<in> set es \<and> constructor_name c = T)"

definition reg_ok :: "(ComponentTypeName, nat) Trie \<Rightarrow> ComponentTypeName list list \<Rightarrow> bool" where
  "reg_ok trie tss \<longleftrightarrow>
     (\<forall>ts a. getInTrie trie ts = Some a \<longrightarrow> sorted ts \<and> distinct ts \<and> a < length tss \<and> tss ! a = ts)"

definition world_inv :: "World \<Rightarrow> bool" where
  "world_inv w \<longleftrightarrow>
     0 \<le> entitySequence w \<and> comps_ok (entities w) (components w) \<and>
     reg_ok (indexByComponents w) (map types (indexBases w))"

text \<open>The world of \<open>create\<close> after the components are stored, and the world of
  \<open>destroy\<close> after the entity is deleted from the live set and from every storage.\<close>

definition create_stored :: "World \<Rightarrow> Component list \<Rightarrow> World" where
  "create_stored w cs =
     fold (\<lambda>component w'. store_component w' (entitySequence w) component) cs
       (w\<lparr>entitySequence := entitySequence w + 1,
          entities := set_add (entitySequence w) (entities w)\<rparr>)"

definition destroyed :: "World \<Rightarrow> Entity \<Rightarrow> World" where
  "destroyed w e =
     w\<lparr>entities := set_delete e (entities w),
       components := map (\<lambda>(k, stor). (k, stor(e := None))) (components w)\<rparr>"

text \<open>A component of type \<open>B\<close>, for the examples.\<close>

definition cB :: Component where
  "cB = Component ''B'' 0"

text \<open>A new world with an index over the types \<open>A\<close> and \<open>B\<close>, and that world after
  \<open>insert(0, new A)\<close>.\<close>

definition world_ab :: World where
  "world_ab = snd (World_index World_new [(''a'', ''A''), (''b'', ''B'')])"

definition world_ab_inserted :: World where
  "world_ab_inserted = snd (World_insert world_ab 0 [cA])"



section \<open>Properties of SparseSet\<close>

lemma grow_ok:
  assumes "ss_shape s"
  shows "grow s v =
    Inr (s\<lparr>dense := dense s @ replicate (max (capacity s * 2) (nat (v + 1)) - capacity s) 0,
           sparse := sparse s @ replicate (max (capacity s * 2) (nat (v + 1)) - capacity s) 0,
           capacity := max (capacity s * 2) (nat (v + 1))\<rparr>)"
  using assms by (simp add: grow_def ta_set_def Int32Array_def ss_shape_def Let_def)

lemma ta_get_append_left: "ta_get a i = Some x \<Longrightarrow> ta_get (a @ b) i = Some x"
  by (auto simp: ta_get_def nth_append split: if_splits)

lemma ta_get_put_other: "j \<noteq> i \<Longrightarrow> ta_get (ta_put a i v) j = ta_get a j"
  by (auto simp: ta_get_def ta_put_def)

lemma length_ta_put [simp]: "length (ta_put a i v) = length a"
  by (simp add: ta_put_def)

lemma has_grow:
  assumes "ss_shape s" "SparseSet_has s u" "grow s v = Inr s1"
  shows "SparseSet_has s1 u"
proof -
  from assms(2) obtain i where i: "ta_get (sparse s) u = Some i" "i < int (size_s s)"
    "ta_get (dense s) i = Some u"
    by (auto simp: SparseSet_has_def split: option.splits)
  from assms(1,3) have s1:
    "sparse s1 = sparse s @ replicate (max (capacity s * 2) (nat (v + 1)) - capacity s) 0"
    "dense s1 = dense s @ replicate (max (capacity s * 2) (nat (v + 1)) - capacity s) 0"
    "size_s s1 = size_s s"
    by (auto simp: grow_ok)
  show ?thesis
    using i by (simp add: SparseSet_has_def s1 ta_get_append_left)
qed

lemma has_put:
  assumes "SparseSet_has s1 u" "u \<noteq> v"
  shows "SparseSet_has (s1\<lparr>dense := ta_put (dense s1) (int (size_s s1)) v,
                   sparse := ta_put (sparse s1) v (int (size_s s1)),
                   size_s := size_s s1 + 1\<rparr>) u"
proof -
  from assms(1) obtain i where i: "ta_get (sparse s1) u = Some i" "i < int (size_s s1)"
    "ta_get (dense s1) i = Some u"
    by (auto simp: SparseSet_has_def split: option.splits)
  then show ?thesis using assms(2)
    by (simp add: SparseSet_has_def ta_get_put_other)
qed

lemma not_has_beyond: "ss_shape s \<Longrightarrow> int (capacity s) \<le> v \<Longrightarrow> \<not> SparseSet_has s v"
  by (simp add: SparseSet_has_def ss_shape_def ta_get_def)

lemma shape_grow: "ss_shape s \<Longrightarrow> grow s v = Inr s1 \<Longrightarrow> ss_shape s1"
  by (auto simp: grow_ok ss_shape_def)

lemma shape_new: "ss_shape (SparseSet_new n)"
  by (simp add: ss_shape_def SparseSet_new_def Int32Array_def)

text \<open>
  C5, as the claim states it, fails: the cap in the source is 550000, so adding 555000,
  which is below 560000, throws.
\<close>

theorem SparseSet_add_560000_counterexample:
  "\<not> (isl (SparseSet_add (SparseSet_new 2048) 555000) \<longleftrightarrow> (555000::int) \<ge> 560000)"
  by (simp add: SparseSet_add_def SparseSet_new_def)

text \<open>
  C5 (amended): \<open>add(v)\<close> throws if and only if \<open>v \<ge> 550000\<close>. For every
  \<open>v < 550000\<close> it succeeds and returns the dense index written (the old size); when
  \<open>v\<close> is at or beyond the capacity the new capacity is the larger of twice the old one
  and \<open>v + 1\<close>, otherwise the capacity is unchanged; every other value that was a member
  stays a member, and when the arrays grow every member stays a member.
\<close>

theorem SparseSet_add_capacity_bound:
  "ss_shape s \<Longrightarrow>
     (isl (SparseSet_add s v) \<longleftrightarrow> v \<ge> 550000) \<and>
     (v < 550000 \<longrightarrow>
        (\<exists>s'. SparseSet_add s v = Inr (size_s s, s') \<and> ss_shape s' \<and>
           capacity s' = (if v \<ge> int (capacity s) then max (capacity s * 2) (nat (v + 1))
                          else capacity s) \<and>
           (\<forall>u. u \<noteq> v \<longrightarrow> SparseSet_has s u \<longrightarrow> SparseSet_has s' u) \<and>
           (int (capacity s) \<le> v \<longrightarrow> (\<forall>u. SparseSet_has s u \<longrightarrow> SparseSet_has s' u))))"
proof -
  assume sh: "ss_shape s"
  then have mc: "maxCapacity s = 550000" by (simp add: ss_shape_def)
  obtain s1 where s1: "(if v \<ge> int (capacity s) then grow s v else Inr s) = Inr s1"
    using grow_ok [OF sh] by (cases "v \<ge> int (capacity s)") auto
  have sh1: "ss_shape s1" using s1 sh shape_grow by (auto split: if_splits)
  have sz: "size_s s1 = size_s s" using s1 sh by (auto simp: grow_ok split: if_splits)
  have cap: "capacity s1 = (if v \<ge> int (capacity s) then max (capacity s * 2) (nat (v + 1))
                          else capacity s)"
    using s1 sh by (auto simp: grow_ok split: if_splits)
  have keep1: "SparseSet_has s1 u" if "SparseSet_has s u" for u
    using that s1 sh has_grow by (auto split: if_splits)
  let ?s' = "s1\<lparr>dense := ta_put (dense s1) (int (size_s s1)) v,
                   sparse := ta_put (sparse s1) v (int (size_s s1)),
                   size_s := size_s s1 + 1\<rparr>"
  have res: "v < 550000 \<Longrightarrow> SparseSet_add s v = Inr (size_s s, ?s')"
    using s1 by (simp add: SparseSet_add_def mc Let_def sz)
  have thr: "isl (SparseSet_add s v) \<longleftrightarrow> v \<ge> 550000"
  proof (cases "v < 550000")
    case True then show ?thesis using res by simp
  next
    case False then show ?thesis by (simp add: SparseSet_add_def mc)
  qed
  have sh': "ss_shape ?s'" using sh1 by (simp add: ss_shape_def)
  have keep: "SparseSet_has ?s' u" if "u \<noteq> v" "SparseSet_has s u" for u
    using has_put [OF keep1 [OF that(2)] that(1)] .
  have keepg: "SparseSet_has ?s' u" if "int (capacity s) \<le> v" "SparseSet_has s u" for u
    using keep [of u] that not_has_beyond [OF sh that(1)] by auto
  show ?thesis
    using thr res sh' cap keep keepg by auto
qed

theorem SparseSet_add_capacity_bound_witness:
  "ss_shape ss_example \<and> SparseSet_has ss_example 1 \<and> (1::int) \<noteq> 5 \<and>
   int (capacity ss_example) \<le> 5 \<and> (5::int) < 550000 \<and>
   (\<exists>s'. SparseSet_add ss_example 5 = Inr (1, s') \<and> capacity s' = 6 \<and> SparseSet_has s' 1)"
proof -
  have sh: "ss_shape ss_example" by (simp add: ss_shape_def ss_example_def)
  have h: "SparseSet_has ss_example 1"
    by (simp add: SparseSet_has_def ss_example_def ta_get_def)
  have c: "int (capacity ss_example) \<le> 5" "capacity ss_example = 2" "size_s ss_example = 1"
    by (simp_all add: ss_example_def)
  show ?thesis
    using SparseSet_add_capacity_bound [OF sh, of 5] sh h c by auto
qed

section \<open>Properties of IdPool\<close>

lemma mset_insert_by: "mset (insert_by cmp x ys) = add_mset x (mset ys)"
  by (induction ys) auto

lemma mset_sort_by: "mset (sort_by cmp xs) = mset xs"
  by (induction xs) (auto simp: sort_by_def mset_insert_by)

lemma findIndex_None: "findIndex P xs = None \<longleftrightarrow> (\<forall>x \<in> set xs. \<not> P x)"
  by (induction xs) auto

lemma findIndex_Some:
  "findIndex P xs = Some i \<Longrightarrow> i < length xs \<and> P (xs ! i) \<and> (\<forall>x \<in> set (take i xs). \<not> P x)"
proof (induction xs arbitrary: i)
  case Nil then show ?case by simp
next
  case (Cons x xs)
  then show ?case by (auto split: if_splits)
qed

lemma release_new_5:
  "release IdPool_new 5 =
     \<lparr>free = [\<lparr>left = 1, right = 5\<rparr>, \<lparr>left = 6, right = MAX_SAFE_INTEGER\<rparr>]\<rparr>"
  by (simp add: IdPool_new_def contains_def MAX_SAFE_INTEGER_def release_def sort_by_def
      compareIntervals_def)

text \<open>
  C7, at a failing input: the identifier 5 lies in the free interval of a new pool (the
  test of \<open>release\<close> finds it there), and five calls of \<open>reserve\<close> return 1 to 5.
  After \<open>release(5)\<close> the interval is split around 5, and five calls of \<open>reserve\<close>
  return 1, 2, 3, 4 and 6: the released identifier is no longer handed out.
\<close>

theorem release_free_id_failing_input:
  "findIndex (contains 5) (free IdPool_new) = Some 0 \<and>
   reserve_many 5 IdPool_new = Inr [1, 2, 3, 4, 5] \<and>
   reserve_many 5 (release IdPool_new 5) = Inr [1, 2, 3, 4, 6]"
proof -
  have f: "findIndex (contains 5) (free IdPool_new) = Some 0"
    by (simp add: IdPool_new_def contains_def MAX_SAFE_INTEGER_def)
  have a: "reserve_many 5 (release IdPool_new 5) = Inr [1, 2, 3, 4, 6]"
    unfolding release_new_5 by (simp add: MAX_SAFE_INTEGER_def reserve_def eval_nat_numeral)
  have b: "reserve_many 5 IdPool_new = Inr [1, 2, 3, 4, 5]"
    by (simp add: IdPool_new_def MAX_SAFE_INTEGER_def reserve_def eval_nat_numeral)
  show ?thesis using f a b by simp
qed

section \<open>Properties of IndexBase and IndexIterator\<close>

lemma add_addVer:
  "addVer (IndexBase_add ib e cs) = (if addVerObserved ib then addVer ib + 1 else addVer ib)"
  "addVerObserved (IndexBase_add ib e cs) = False"
  "remVer (IndexBase_add ib e cs) = remVer ib"
  "remVerObserved (IndexBase_add ib e cs) = remVerObserved ib"
  by (simp_all add: IndexBase_add_def Let_def split: prod.splits)

lemma remove_vers:
  "addVer (snd (IndexBase_remove ib e)) = addVer ib"
  "addVerObserved (snd (IndexBase_remove ib e)) = addVerObserved ib"
  "remVer (snd (IndexBase_remove ib e)) =
     (if fst (IndexBase_remove ib e) \<and> remVerObserved ib then remVer ib + 1 else remVer ib)"
  "remVerObserved (snd (IndexBase_remove ib e)) =
     (if fst (IndexBase_remove ib e) then False else remVerObserved ib)"
  by (simp_all add: IndexBase_remove_def Let_def split: option.splits)

lemma mutate_addVer:
  "addVer (mutate ib ms) = (if addVerObserved ib \<and> any_added ms then addVer ib + 1 else addVer ib)"
proof (induction ib ms rule: mutate.induct)
  case (1 ib) show ?case by simp
next
  case (2 ib e cs ms) then show ?case by (simp add: add_addVer)
next
  case (3 ib e ms) then show ?case by (simp add: remove_vers)
qed

lemma mutate_remVer:
  "remVer (mutate ib ms) =
     (if remVerObserved ib \<and> any_removed ib ms then remVer ib + 1 else remVer ib)"
proof (induction ib ms rule: mutate.induct)
  case (1 ib) show ?case by simp
next
  case (2 ib e cs ms) then show ?case by (simp add: add_addVer)
next
  case (3 ib e ms) then show ?case by (simp add: remove_vers)
qed

text \<open>
  C8, at a failing input: an iterator is constructed on an IndexBase, then entity 7 is
  added to the IndexBase and removed again. The first \<open>wasAddedTo()\<close> of the iterator
  returns true and the first \<open>wasRemovedFrom()\<close> returns true.
\<close>

theorem first_observation_failing_input:
  "fst (wasAddedTo (fst (IndexIteratorBase_new 0 (IndexBase_new [''A'']) [''a'']))
         (mutate (snd (IndexIteratorBase_new 0 (IndexBase_new [''A'']) [''a'']))
            [IndexAdd 7 [Some cA], IndexRemove 7])) \<and>
   fst (wasRemovedFrom (fst (IndexIteratorBase_new 0 (IndexBase_new [''A'']) [''a'']))
         (mutate (snd (IndexIteratorBase_new 0 (IndexBase_new [''A'']) [''a'']))
            [IndexAdd 7 [Some cA], IndexRemove 7]))"
proof -
  obtain it ib1 where n: "IndexIteratorBase_new 0 (IndexBase_new [''A'']) [''a''] = (it, ib1)"
    by (cases "IndexIteratorBase_new 0 (IndexBase_new [''A'']) [''a'']") auto
  then have f: "it_addVer it = addVer ib1" "it_remVer it = remVer ib1"
     "addVerObserved ib1" "remVerObserved ib1"
    by (auto simp: IndexIteratorBase_new_def observeAddVer_def observeRemVer_def Let_def)
  have p: "fst (IndexBase_remove (IndexBase_add ib1 7 [Some cA]) 7)"
    by (simp add: IndexBase_remove_def IndexBase_add_def Let_def split: prod.splits option.splits)
  have a: "fst (wasAddedTo it ib2) = (addVer ib2 \<noteq> it_addVer it)" for ib2
    by (auto simp: wasAddedTo_def observeAddVer_def)
  have r: "fst (wasRemovedFrom it ib2) = (remVer ib2 \<noteq> it_remVer it)" for ib2
    by (auto simp: wasRemovedFrom_def observeRemVer_def)
  show ?thesis
    unfolding n fst_conv snd_conv a r mutate_addVer mutate_remVer using p f by simp
qed

text \<open>
  What the first calls report in general: the constructor takes the snapshot and marks
  the counters as observed, so the first \<open>wasAddedTo()\<close> returns true exactly when an
  \<open>add\<close> ran on the IndexBase since the construction, and the first
  \<open>wasRemovedFrom()\<close> exactly when a \<open>remove\<close> that returned true did.
\<close>

lemma first_observation_since_construction:
  "IndexIteratorBase_new ref ib ns = (it, ib1) \<Longrightarrow>
     fst (wasAddedTo it (mutate ib1 ms)) = any_added ms \<and>
     fst (wasRemovedFrom it (mutate ib1 ms)) = any_removed ib1 ms"
proof -
  assume n: "IndexIteratorBase_new ref ib ns = (it, ib1)"
  then have f: "it_addVer it = addVer ib1" "it_remVer it = remVer ib1"
     "addVerObserved ib1" "remVerObserved ib1"
    by (auto simp: IndexIteratorBase_new_def observeAddVer_def observeRemVer_def Let_def)
  have a: "fst (wasAddedTo it ib2) = (addVer ib2 \<noteq> it_addVer it)" for ib2
    by (auto simp: wasAddedTo_def observeAddVer_def)
  have r: "fst (wasRemovedFrom it ib2) = (remVer ib2 \<noteq> it_remVer it)" for ib2
    by (auto simp: wasRemovedFrom_def observeRemVer_def)
  show ?thesis
    unfolding a r by (simp add: mutate_addVer mutate_remVer f)
qed

section \<open>Properties of the trie and its subsequence iterator\<close>

lemma below_cong:
  "(\<And>j. j < k \<Longrightarrow> path it' j = path it j \<and> seqIdx it' j = seqIdx it j) \<Longrightarrow>
     below sq it' k = below sq it k"
  by (induction k) (auto simp: frame_trie_def frame_idx_def)

lemma below_work_cong:
  "(\<And>j. j < k \<Longrightarrow> path it' j = path it j \<and> seqIdx it' j = seqIdx it j) \<Longrightarrow>
     below_work sq it' k = below_work sq it k"
  by (induction k) (auto simp: frame_trie_def frame_idx_def)

declare backtrack.simps [simp del]

lemma children_drop_all [simp]: "length sq \<le> n \<Longrightarrow> children t (drop n sq) = []"
  by simp

lemma backtrack_sound:
  assumes "frames_ok it pl"
  shows "case backtrack (length sq) pl it of
           Inl it2 \<Rightarrow> below sq it (Suc pl) = []
         | Inr it2 \<Rightarrow>
             frames_ok it2 (pathLen it2) \<and> seq it2 = seq it \<and> it_value it2 = it_value it \<and>
             remaining sq it2 = below sq it (Suc pl) \<and>
             mu sq it2 \<le> 2 * below_work sq it (Suc pl) + pl \<and>
             (length sq \<le> frame_idx it pl + 1 \<longrightarrow> mu sq it2 < 2 * below_work sq it (Suc pl) + pl)"
  using assms
proof (induction pl arbitrary: it)
  case 0
  then obtain i where i: "seqIdx it 0 = Some i" "0 \<le> i" and p: "path it 0 \<noteq> None"
    by (auto simp: frames_ok_def)
  show ?case
  proof (cases "int (length sq) \<le> i + 1")
    case True
    then have "backtrack (length sq) 0 it =
       Inl (it\<lparr>seqIdx := (seqIdx it)(0 \<mapsto> - 1)\<rparr>)"
      using i by (subst backtrack.simps) (simp add: idx_ge_def Let_def)
    moreover have "length sq \<le> frame_idx it 0 + 1" using True i by (simp add: frame_idx_def)
    ultimately show ?thesis by simp
  next
    case False
    then have b: "backtrack (length sq) 0 it =
       Inr (it\<lparr>seqIdx := (seqIdx it)(0 \<mapsto> i + 1), pathLen := 0\<rparr>)"
      using i by (subst backtrack.simps) (simp add: idx_ge_def Let_def)
    have n: "nat (i + 1) = nat i + 1" using i by simp
    show ?thesis
      unfolding b using i p False
      by (simp add: frames_ok_def remaining_def mu_def frame_idx_def frame_trie_def n)
  qed
next
  case (Suc pl)
  then obtain i where i: "seqIdx it (Suc pl) = Some i" "0 \<le> i" and p: "path it (Suc pl) \<noteq> None"
    by (auto simp: frames_ok_def)
  show ?case
  proof (cases "int (length sq) \<le> i + 1")
    case True
    let ?it3 = "it\<lparr>seqIdx := (seqIdx it)(Suc pl \<mapsto> - 1), path := (path it)(Suc pl := None)\<rparr>"
    have b: "backtrack (length sq) (Suc pl) it = backtrack (length sq) pl ?it3"
      using i True by (subst backtrack.simps) (simp add: idx_ge_def Let_def)
    have ok: "frames_ok ?it3 pl" using Suc.prems by (simp add: frames_ok_def)
    have bl: "below sq ?it3 (Suc pl) = below sq it (Suc pl)"
      by (rule below_cong) simp
    have bw: "below_work sq ?it3 (Suc pl) = below_work sq it (Suc pl)"
      by (rule below_work_cong) simp
    have ex: "length sq \<le> frame_idx it (Suc pl) + 1" using True i by (simp add: frame_idx_def)
    have top: "below sq it (Suc (Suc pl)) = below sq it (Suc pl)"
        "below_work sq it (Suc (Suc pl)) = below_work sq it (Suc pl)"
      using ex by simp_all
    show ?thesis
      unfolding b top using Suc.IH [OF ok] bl bw
      by (auto split: sum.splits)
  next
    case False
    then have b: "backtrack (length sq) (Suc pl) it =
       Inr (it\<lparr>seqIdx := (seqIdx it)(Suc pl \<mapsto> i + 1), pathLen := Suc pl\<rparr>)"
      using i by (subst backtrack.simps) (simp add: idx_ge_def Let_def)
    let ?it2 = "it\<lparr>seqIdx := (seqIdx it)(Suc pl \<mapsto> i + 1), pathLen := Suc pl\<rparr>"
    have n: "nat (i + 1) = nat i + 1" using i by simp
    have bl: "below sq ?it2 (Suc pl) = below sq it (Suc pl)"
      by (rule below_cong) simp
    have bw: "below_work sq ?it2 (Suc pl) = below_work sq it (Suc pl)"
      by (rule below_work_cong) simp
    have ok: "frames_ok ?it2 (Suc pl)" using Suc.prems i by (simp add: frames_ok_def)
    have r: "remaining sq ?it2 = below sq it (Suc (Suc pl))"
      unfolding remaining_def using bl by (simp add: frame_idx_def frame_trie_def n i)
    have m: "mu sq ?it2 = 2 * below_work sq it (Suc (Suc pl)) + Suc pl"
      unfolding mu_def using bw by (simp add: frame_idx_def frame_trie_def n i)
    have nf: "\<not> length sq \<le> frame_idx it (Suc pl) + 1" using False i by (simp add: frame_idx_def)
    show ?thesis
      unfolding b using ok r m nf by simp
  qed
qed

lemma work_drop_le: "work t (drop (Suc n) sq) \<le> work t (drop n sq)"
proof (cases "n < length sq")
  case True
  then have "drop n sq = sq ! n # drop (Suc n) sq" by (simp add: Cons_nth_drop_Suc)
  then show ?thesis by simp
next
  case False then show ?thesis by simp
qed

lemma below_value_upd [simp]: "below sq (it\<lparr>it_value := v\<rparr>) k = below sq it k"
  by (rule below_cong) simp

lemma below_work_value_upd [simp]: "below_work sq (it\<lparr>it_value := v\<rparr>) k = below_work sq it k"
  by (rule below_work_cong) simp

lemma remaining_value_upd [simp]: "remaining sq (it\<lparr>it_value := v\<rparr>) = remaining sq it"
  by (simp add: remaining_def frame_trie_def frame_idx_def)

lemma mu_value_upd [simp]: "mu sq (it\<lparr>it_value := v\<rparr>) = mu sq it"
  by (simp add: mu_def frame_trie_def frame_idx_def)

lemma frames_ok_value_upd [simp]: "frames_ok (it\<lparr>it_value := v\<rparr>) k = frames_ok it k"
  by (simp add: frames_ok_def)

lemma next_loop_sound:
  assumes "frames_ok it (pathLen it)"
  shows "\<exists>b it'. next_loop sq it = Some (Inr (b, it')) \<and>
           (if b then frames_ok it' (pathLen it') \<and> seq it' = seq it \<and>
                      (\<exists>v. it_value it' = Some v \<and> remaining sq it = v # remaining sq it') \<and>
                      mu sq it' < mu sq it
            else remaining sq it = [])"
  using assms
proof (induction "mu sq it" arbitrary: it rule: less_induct)
  case less
  let ?p = "pathLen it"
  from less.prems obtain t i where t: "path it ?p = Some t" and i: "seqIdx it ?p = Some i" "0 \<le> i"
    by (auto simp: frames_ok_def)
  have ft: "frame_trie it ?p = t" "frame_idx it ?p = nat i"
    using t i by (simp_all add: frame_trie_def frame_idx_def)
  show ?case
  proof (cases "get_branch t (seq_at sq (seqIdx it ?p))")
    case None
    have nl: "next_loop sq it =
        (case backtrack (length sq) ?p it of
           Inl it2 \<Rightarrow> Some (Inr (False, it2))
         | Inr it2 \<Rightarrow> next_loop sq it2)"
      by (subst next_loop.simps) (simp add: t None)
    have same: "children t (drop (nat i) sq) = children t (drop (nat i + 1) sq)"
    proof (cases "nat i < length sq")
      case True
      then have d: "drop (nat i) sq = sq ! nat i # drop (nat i + 1) sq"
        by (simp add: Cons_nth_drop_Suc)
      have "seq_at sq (Some i) = Some (sq ! nat i)" using True i by (simp add: seq_at_def)
      then have "map_of (branches t) (sq ! nat i) = None"
        using None i by (simp add: get_branch_def)
      then show ?thesis unfolding d by simp
    next
      case False then show ?thesis by simp
    qed
    have r: "remaining sq it = below sq it (Suc ?p)"
      by (simp add: remaining_def ft same)
    have m: "2 * below_work sq it (Suc ?p) + ?p \<le> mu sq it"
      using work_drop_le [of t "nat i" sq] by (simp add: mu_def ft)
    have m': "2 * below_work sq it (Suc ?p) + ?p < mu sq it" if "nat i < length sq"
    proof -
      from that have d: "drop (nat i) sq = sq ! nat i # drop (nat i + 1) sq"
        by (simp add: Cons_nth_drop_Suc)
      show ?thesis by (simp add: mu_def ft d)
    qed
    note bs = backtrack_sound [OF less.prems, of sq]
    show ?thesis
    proof (cases "backtrack (length sq) ?p it")
      case (Inl it2)
      then show ?thesis using bs nl r by auto
    next
      case (Inr it2)
      with bs have f2: "frames_ok it2 (pathLen it2)" and s2: "seq it2 = seq it"
        and v2: "it_value it2 = it_value it"
        and r2: "remaining sq it2 = below sq it (Suc ?p)"
        and m2: "mu sq it2 \<le> 2 * below_work sq it (Suc ?p) + ?p"
        and m3: "length sq \<le> frame_idx it ?p + 1 \<longrightarrow> mu sq it2 < 2 * below_work sq it (Suc ?p) + ?p"
        by simp_all
      have lt: "mu sq it2 < mu sq it"
      proof (cases "nat i < length sq")
        case True then show ?thesis using m' m2 by simp
      next
        case False then show ?thesis using m m3 ft by simp
      qed
      from less.hyps [OF lt f2] obtain b it' where
        n2: "next_loop sq it2 = Some (Inr (b, it'))"
        and c2: "if b then frames_ok it' (pathLen it') \<and> seq it' = seq it2 \<and>
                      (\<exists>v. it_value it' = Some v \<and> remaining sq it2 = v # remaining sq it') \<and>
                      mu sq it' < mu sq it2
            else remaining sq it2 = []"
        by blast
      have "next_loop sq it = Some (Inr (b, it'))" using nl Inr n2 by simp
      moreover have "if b then frames_ok it' (pathLen it') \<and> seq it' = seq it \<and>
                      (\<exists>v. it_value it' = Some v \<and> remaining sq it = v # remaining sq it') \<and>
                      mu sq it' < mu sq it
            else remaining sq it = []"
        using c2 s2 r r2 lt by (auto split: if_splits)
      ultimately show ?thesis by blast
    qed
  next
    case (Some br)
    then have gb: "get_branch t (seq_at sq (Some i)) = Some br" using i by simp
    from Some have il: "nat i < length sq" and x: "map_of (branches t) (sq ! nat i) = Some br"
      using i by (auto simp: get_branch_def seq_at_def split: option.splits if_splits)
    have d: "drop (nat i) sq = sq ! nat i # drop (nat i + 1) sq"
      using il by (simp add: Cons_nth_drop_Suc)
    let ?it1 = "it\<lparr>pathLen := Suc ?p, path := (path it)(Suc ?p \<mapsto> br),
                   seqIdx := (seqIdx it)(Suc ?p := Some (i + 1))\<rparr>"
    have n: "nat (i + 1) = nat i + 1" using i by simp
    have ok1: "frames_ok ?it1 (Suc ?p)"
      using less.prems i by (auto simp: frames_ok_def)
    have bl1: "below sq ?it1 ?p = below sq it ?p"
      by (rule below_cong) simp
    have bw1: "below_work sq ?it1 ?p = below_work sq it ?p"
      by (rule below_work_cong) simp
    have fr1: "frame_trie ?it1 ?p = t" "frame_idx ?it1 ?p = nat i"
      "frame_trie ?it1 (Suc ?p) = br" "frame_idx ?it1 (Suc ?p) = nat i + 1"
      using t i by (simp_all add: frame_trie_def frame_idx_def n)
    have r: "remaining sq it = own_value br @ remaining sq ?it1"
      unfolding remaining_def ft d using x bl1 fr1 by simp
    have m: "mu sq ?it1 + 3 = mu sq it"
      unfolding mu_def ft d using x bw1 fr1 by simp
    show ?thesis
    proof (cases "trie_value br")
      case (Some v)
      have nl: "next_loop sq it = Some (Inr (True, ?it1\<lparr>it_value := Some v\<rparr>))"
        by (subst next_loop.simps) (simp add: t gb Some i Let_def)
      have ok: "frames_ok ?it1 (pathLen ?it1)" using ok1 by simp
      have c: "frames_ok (?it1\<lparr>it_value := Some v\<rparr>) (pathLen (?it1\<lparr>it_value := Some v\<rparr>)) \<and>
           seq (?it1\<lparr>it_value := Some v\<rparr>) = seq it \<and>
           (\<exists>w. it_value (?it1\<lparr>it_value := Some v\<rparr>) = Some w \<and>
                remaining sq it = w # remaining sq (?it1\<lparr>it_value := Some v\<rparr>)) \<and>
           mu sq (?it1\<lparr>it_value := Some v\<rparr>) < mu sq it"
        using ok r m Some by simp
      show ?thesis
      proof (intro exI conjI)
        show "next_loop sq it = Some (Inr (True, ?it1\<lparr>it_value := Some v\<rparr>))" by (rule nl)
        show "if True then frames_ok (?it1\<lparr>it_value := Some v\<rparr>) (pathLen (?it1\<lparr>it_value := Some v\<rparr>)) \<and>
           seq (?it1\<lparr>it_value := Some v\<rparr>) = seq it \<and>
           (\<exists>w. it_value (?it1\<lparr>it_value := Some v\<rparr>) = Some w \<and>
                remaining sq it = w # remaining sq (?it1\<lparr>it_value := Some v\<rparr>)) \<and>
           mu sq (?it1\<lparr>it_value := Some v\<rparr>) < mu sq it
          else remaining sq it = []"
          using c by simp
      qed
    next
      case None
      have r': "remaining sq it = remaining sq ?it1" using r None by simp
      show ?thesis
      proof (cases "int (length sq) \<le> i + 1")
        case False
        have nl: "next_loop sq it = next_loop sq ?it1"
          by (subst next_loop.simps)
             (simp add: t gb None i Let_def idx_ge_def False)
        have lt: "mu sq ?it1 < mu sq it" using m by simp
        have ok: "frames_ok ?it1 (pathLen ?it1)" using ok1 by simp
        from less.hyps [OF lt ok] obtain b it' where
            n2: "next_loop sq ?it1 = Some (Inr (b, it'))"
            and c2: "if b then frames_ok it' (pathLen it') \<and> seq it' = seq ?it1 \<and>
                      (\<exists>v. it_value it' = Some v \<and> remaining sq ?it1 = v # remaining sq it') \<and>
                      mu sq it' < mu sq ?it1
              else remaining sq ?it1 = []"
          by blast
        have "next_loop sq it = Some (Inr (b, it'))" using nl n2 by simp
        moreover have "if b then frames_ok it' (pathLen it') \<and> seq it' = seq it \<and>
                      (\<exists>v. it_value it' = Some v \<and> remaining sq it = v # remaining sq it') \<and>
                      mu sq it' < mu sq it
            else remaining sq it = []"
        proof (cases b)
          case True
          with c2 show ?thesis unfolding r' using lt by simp
        next
          case False
          with c2 show ?thesis unfolding r' by simp
        qed
        ultimately show ?thesis by blast
      next
        case True
        have nl: "next_loop sq it =
          (case backtrack (length sq) (Suc ?p) ?it1 of
             Inl it2 \<Rightarrow> Some (Inr (False, it2))
           | Inr it2 \<Rightarrow> next_loop sq it2)"
          by (subst next_loop.simps)
             (simp add: t gb None i Let_def idx_ge_def True)
        note bs = backtrack_sound [OF ok1, of sq]
        have ex: "length sq \<le> nat i + 1" using True i by linarith
        have r1: "remaining sq ?it1 = below sq ?it1 (Suc (Suc ?p))"
          unfolding remaining_def using ex by (simp add: fr1)
        have m1: "2 * below_work sq ?it1 (Suc (Suc ?p)) + (Suc ?p) \<le> mu sq ?it1"
          unfolding mu_def using ex by (simp add: fr1)
        show ?thesis
        proof (cases "backtrack (length sq) (Suc ?p) ?it1")
          case (Inl it2)
          then show ?thesis using bs nl r' r1 by auto
        next
          case (Inr it2)
          with bs have f2: "frames_ok it2 (pathLen it2)" and s2: "seq it2 = seq it"
            and r2: "remaining sq it2 = below sq ?it1 (Suc (Suc ?p))"
            and m2: "mu sq it2 \<le> 2 * below_work sq ?it1 (Suc (Suc ?p)) + (Suc ?p)"
            by simp_all
          have lt: "mu sq it2 < mu sq it" using m2 m1 m by simp
          from less.hyps [OF lt f2] obtain b it' where
            n2: "next_loop sq it2 = Some (Inr (b, it'))"
            and c2: "if b then frames_ok it' (pathLen it') \<and> seq it' = seq it2 \<and>
                      (\<exists>v. it_value it' = Some v \<and> remaining sq it2 = v # remaining sq it') \<and>
                      mu sq it' < mu sq it2
              else remaining sq it2 = []"
            by blast
          have "next_loop sq it = Some (Inr (b, it'))" using nl Inr n2 by simp
          moreover have "if b then frames_ok it' (pathLen it') \<and> seq it' = seq it \<and>
                      (\<exists>v. it_value it' = Some v \<and> remaining sq it = v # remaining sq it') \<and>
                      mu sq it' < mu sq it
            else remaining sq it = []"
            using c2 s2 r' r1 r2 lt by (auto split: if_splits)
          ultimately show ?thesis by blast
        qed
      qed
    qed
  qed
qed

lemma next_sound:
  assumes ok: "frames_ok it (pathLen it)" and sq: "seq it = Some sq"
  shows "\<exists>b it'. next it = Some (Inr (b, it')) \<and>
           (if b then frames_ok it' (pathLen it') \<and> seq it' = Some sq \<and>
                      (\<exists>v. it_value it' = Some v \<and> remaining_full sq it = v # remaining_full sq it') \<and>
                      mu sq it' + length (root_pending it') < mu sq it + length (root_pending it)
            else remaining_full sq it = [])"
proof -
  from ok obtain rt where rt: "path it 0 = Some rt" by (auto simp: frames_ok_def)
  show ?thesis
  proof (cases "it_value it = None \<and> pathLen it = 0 \<and> trie_value rt \<noteq> None")
    case True
    then obtain v where v: "trie_value rt = Some v" by auto
    have n: "next it = Some (Inr (True, it\<lparr>it_value := Some v\<rparr>))"
      using True v by (simp add: next_def sq rt)
    have rp: "root_pending it = [v]" "root_pending (it\<lparr>it_value := Some v\<rparr>) = []"
      using True v rt by (simp_all add: root_pending_def frame_trie_def)
    have c: "frames_ok (it\<lparr>it_value := Some v\<rparr>) (pathLen (it\<lparr>it_value := Some v\<rparr>)) \<and>
        seq (it\<lparr>it_value := Some v\<rparr>) = Some sq \<and>
        (\<exists>w. it_value (it\<lparr>it_value := Some v\<rparr>) = Some w \<and>
           remaining_full sq it = w # remaining_full sq (it\<lparr>it_value := Some v\<rparr>)) \<and>
        mu sq (it\<lparr>it_value := Some v\<rparr>) + length (root_pending (it\<lparr>it_value := Some v\<rparr>))
          < mu sq it + length (root_pending it)"
      using ok sq by (simp add: remaining_full_def rp)
    show ?thesis
    proof (intro exI conjI)
      show "next it = Some (Inr (True, it\<lparr>it_value := Some v\<rparr>))" by (rule n)
      show "if True then frames_ok (it\<lparr>it_value := Some v\<rparr>) (pathLen (it\<lparr>it_value := Some v\<rparr>)) \<and>
        seq (it\<lparr>it_value := Some v\<rparr>) = Some sq \<and>
        (\<exists>w. it_value (it\<lparr>it_value := Some v\<rparr>) = Some w \<and>
           remaining_full sq it = w # remaining_full sq (it\<lparr>it_value := Some v\<rparr>)) \<and>
        mu sq (it\<lparr>it_value := Some v\<rparr>) + length (root_pending (it\<lparr>it_value := Some v\<rparr>))
          < mu sq it + length (root_pending it)
        else remaining_full sq it = []"
        using c by simp
    qed
  next
    case False
    then have n: "next it = next_loop sq it"
      by (auto simp: next_def sq rt)
    have rp: "root_pending it = []"
      using False rt by (auto simp: root_pending_def frame_trie_def)
    from next_loop_sound [OF ok, of sq] obtain b it' where
      nl: "next_loop sq it = Some (Inr (b, it'))"
      and c: "if b then frames_ok it' (pathLen it') \<and> seq it' = seq it \<and>
                      (\<exists>v. it_value it' = Some v \<and> remaining sq it = v # remaining sq it') \<and>
                      mu sq it' < mu sq it
            else remaining sq it = []"
      by blast
    have "if b then frames_ok it' (pathLen it') \<and> seq it' = Some sq \<and>
                      (\<exists>v. it_value it' = Some v \<and> remaining_full sq it = v # remaining_full sq it') \<and>
                      mu sq it' + length (root_pending it') < mu sq it + length (root_pending it)
            else remaining_full sq it = []"
    proof (cases b)
      case True
      with c obtain v where v: "it_value it' = Some v" "remaining sq it = v # remaining sq it'"
        by auto
      then have "root_pending it' = []" by (simp add: root_pending_def)
      then show ?thesis using True c v sq by (simp add: remaining_full_def rp)
    next
      case False
      with c show ?thesis by (simp add: remaining_full_def rp)
    qed
    then show ?thesis using n nl by auto
  qed
qed

lemma for_each_sound:
  assumes "frames_ok it (pathLen it)" and "seq it = Some sq"
  shows "for_each body it a = Some (fold_steps body (map Some (remaining_full sq it)) a)"
  using assms
proof (induction "mu sq it + length (root_pending it)" arbitrary: it a rule: less_induct)
  case less
  from next_sound [OF less.prems] obtain b it' where
    n: "next it = Some (Inr (b, it'))"
    and c: "if b then frames_ok it' (pathLen it') \<and> seq it' = Some sq \<and>
                      (\<exists>v. it_value it' = Some v \<and> remaining_full sq it = v # remaining_full sq it') \<and>
                      mu sq it' + length (root_pending it') < mu sq it + length (root_pending it)
            else remaining_full sq it = []"
    by blast
  show ?case
  proof (cases b)
    case False
    with c have "remaining_full sq it = []" by simp
    moreover have "for_each body it a = Some (None, a)"
      using n False by (subst for_each.simps) simp
    ultimately show ?thesis by simp
  next
    case True
    with c obtain v where ok': "frames_ok it' (pathLen it')" and sq': "seq it' = Some sq"
      and v: "it_value it' = Some v" "remaining_full sq it = v # remaining_full sq it'"
      and lt: "mu sq it' + length (root_pending it') < mu sq it + length (root_pending it)"
      by auto
    note ih = less.hyps [OF lt ok' sq']
    show ?thesis
    proof (cases "body (Some v) a")
      case (Pair r a')
      show ?thesis
      proof (cases r)
        case None
        have "for_each body it a = for_each body it' a'"
          using n True v Pair None by (subst for_each.simps) simp
        then show ?thesis using ih [of a'] v Pair None by simp
      next
        case (Some e)
        have "for_each body it a = Some (Some e, a')"
          using n True v Pair Some by (subst for_each.simps) simp
        then show ?thesis using v Pair Some by simp
      qed
    qed
  qed
qed

lemma fold_steps_collect: "fold_steps (\<lambda>v vs. (None, vs @ [v])) xs acc = (None, acc @ xs)"
  by (induction xs arbitrary: acc) simp_all

lemma drain_sound:
  assumes "frames_ok it (pathLen it)" and "seq it = Some sq"
  shows "drain it = Some (None, map Some (remaining_full sq it))"
  unfolding drain_def for_each_sound [OF assms] by (simp add: fold_steps_collect)

lemma reset_frames:
  assumes "path it 0 = Some t"
  shows "frames_ok (reset (Some q) None it) (pathLen (reset (Some q) None it))"
    and "seq (reset (Some q) None it) = Some q"
    and "remaining_full q (reset (Some q) None it) = subsequence_values t q"
  using assms
  by (simp_all add: reset_def Let_def frames_ok_def remaining_full_def root_pending_def
      remaining_def frame_trie_def frame_idx_def subsequence_values_def)

lemma reset_path0: "path (reset sq (Some t) it) 0 = Some t" "path (reset sq None it) 0 = path it 0"
  by (simp_all add: reset_def Let_def split: option.splits)

lemma reset_trie: "reset sq (Some t) it = reset sq None (it\<lparr>path := (path it)(0 \<mapsto> t)\<rparr>)"
  by (simp add: reset_def Let_def)

lemma for_each_reset:
  assumes "path it 0 = Some t"
  shows "for_each body (reset (Some q) None it) a =
     Some (fold_steps body (map Some (subsequence_values t q)) a)"
  using for_each_sound [OF reset_frames(1,2) [OF assms]] reset_frames(3) [OF assms] by simp

lemma drain_reset:
  assumes "path it 0 = Some t"
  shows "drain (reset (Some q) None it) = Some (None, map Some (subsequence_values t q))"
  using drain_sound [OF reset_frames(1,2) [OF assms]] reset_frames(3) [OF assms] by simp

lemma drain_new:
  "drain (TrieSubsequenceIterator_new q t) = Some (None, map Some (subsequence_values t q))"
  unfolding TrieSubsequenceIterator_new_def reset_trie
  by (rule drain_reset) simp

lemma map_filter_Cons_path:
  "List.map_filter (getInTrie t) (map ((#) x) ps) =
     (case map_of (branches t) x of None \<Rightarrow> [] | Some b \<Rightarrow> List.map_filter (getInTrie b) ps)"
  by (induction ps) (auto simp: List.map_filter_simps split: option.splits)

lemma map_filter_append: "List.map_filter f (xs @ ys) = List.map_filter f xs @ List.map_filter f ys"
  by (simp add: List.map_filter_def)

lemma mset_subsequence_values:
  "mset (subsequence_values t q) = mset (List.map_filter (getInTrie t) (subseqs q))"
proof (induction q arbitrary: t)
  case Nil
  show ?case by (simp add: subsequence_values_def List.map_filter_simps split: option.splits)
next
  case (Cons x q)
  show ?case
  proof (cases "map_of (branches t) x")
    case None
    then show ?thesis
      using Cons [of t]
      by (simp add: subsequence_values_def Let_def map_filter_append map_filter_Cons_path)
  next
    case (Some b)
    then have "mset (subsequence_values t (x # q)) =
        mset (subsequence_values b q) + mset (subsequence_values t q)"
      by (simp add: subsequence_values_def)
    also have "\<dots> = mset (List.map_filter (getInTrie b) (subseqs q)) +
        mset (List.map_filter (getInTrie t) (subseqs q))"
      by (simp only: Cons)
    finally show ?thesis
      using Some by (simp add: Let_def map_filter_append map_filter_Cons_path)
  qed
qed

lemma count_map_filter:
  "count (mset (List.map_filter f ps)) v = length (filter (\<lambda>p. f p = Some v) ps)"
  by (induction ps) (auto simp: List.map_filter_simps split: option.splits)

lemma distinct_subseqs: "distinct q \<Longrightarrow> distinct (subseqs q)"
  using distinct_set_subseqs [of q] by (simp add: distinct_map)

lemma count_subsequence_values:
  assumes "distinct q"
  shows "count (mset (subsequence_values t q)) v = card {p. subseq p q \<and> getInTrie t p = Some v}"
proof -
  have "count (mset (subsequence_values t q)) v =
      length (filter (\<lambda>p. getInTrie t p = Some v) (subseqs q))"
    by (simp add: mset_subsequence_values count_map_filter)
  also have "\<dots> = card ({p. getInTrie t p = Some v} \<inter> set (subseqs q))"
    using distinct_subseqs [OF assms] by (simp add: distinct_length_filter)
  also have "{p. getInTrie t p = Some v} \<inter> set (subseqs q) = {p. subseq p q \<and> getInTrie t p = Some v}"
    by auto
  finally show ?thesis .
qed

lemma trie_example_eq:
  "trie_example = Trie None [(1, Trie None [(2, Trie (Some 10) [])]), (2, Trie (Some 20) [])]"
  by (simp add: trie_example_def)

text \<open>
  C2: for every trie \<open>t\<close>, every iterator bound to it and every duplicate-free query
  \<open>q\<close>, \<open>reset(q)\<close> followed by \<open>next()\<close> until it returns false terminates, and
  the values it yields are those stored at the nodes whose path is a subsequence of
  \<open>q\<close>, each node yielded once: every value \<open>v\<close> is yielded as many times as there
  are paths that are subsequences of \<open>q\<close> and hold \<open>v\<close> in the trie.
\<close>

theorem trie_subsequence_enumeration:
  "path it 0 = Some t \<Longrightarrow> distinct q \<Longrightarrow>
     \<exists>ys. drain (reset (Some q) None it) = Some (None, map Some ys) \<and>
          (\<forall>v. count (mset ys) v = card {p. subseq p q \<and> getInTrie t p = Some v})"
  using drain_reset [of it t q] count_subsequence_values [of q t] by blast

theorem trie_subsequence_enumeration_witness:
  "path (TrieSubsequenceIterator_new [] trie_example) 0 = Some trie_example \<and>
   distinct [1, 2, 3 :: nat] \<and>
   (\<exists>ys. drain (reset (Some [1, 2, 3]) None (TrieSubsequenceIterator_new [] trie_example))
            = Some (None, map Some ys) \<and>
         count (mset ys) 10 = card {p. subseq p [1, 2, 3] \<and> getInTrie trie_example p = Some 10})"
proof -
  have p: "path (TrieSubsequenceIterator_new [] trie_example) 0 = Some trie_example"
    by (simp add: TrieSubsequenceIterator_new_def reset_path0)
  have d: "distinct [1, 2, 3 :: nat]" by simp
  show ?thesis
    using trie_subsequence_enumeration [OF p d] p d by blast
qed

lemma drain_example:
  "drain (reset (Some [1, 2, 3]) None (TrieSubsequenceIterator_new [] trie_example)) =
     Some (None, [Some 10, Some 20])"
proof -
  have p: "path (TrieSubsequenceIterator_new [] trie_example) 0 = Some trie_example"
    by (simp add: TrieSubsequenceIterator_new_def reset_path0)
  show ?thesis
    unfolding drain_reset [OF p] by (simp add: subsequence_values_def trie_example_eq)
qed

section \<open>Properties of the World\<close>

lemma skeleton_fields:
  assumes "skeleton w' = skeleton w"
  shows "entitySequence w' = entitySequence w" "entities w' = entities w"
    "components w' = components w" "indexesByComponent w' = indexesByComponent w"
    "indexByComponents w' = indexByComponents w"
    "length (indexBases w') = length (indexBases w)"
    "a < length (indexBases w) \<Longrightarrow> types (indexBases w' ! a) = types (indexBases w ! a)"
proof -
  from assms show "entitySequence w' = entitySequence w" "entities w' = entities w"
    "components w' = components w" "indexesByComponent w' = indexesByComponent w"
    "indexByComponents w' = indexByComponents w"
    by (simp_all add: skeleton_def)
  from assms have m: "map types (indexBases w') = map types (indexBases w)"
    by (simp add: skeleton_def)
  then show l: "length (indexBases w') = length (indexBases w)"
    using map_eq_imp_length_eq by blast
  show "types (indexBases w' ! a) = types (indexBases w ! a)" if "a < length (indexBases w)"
    using m that l by (metis nth_map)
qed

lemma world_inv_skeleton: "skeleton w' = skeleton w \<Longrightarrow> world_inv w' = world_inv w"
  by (simp add: world_inv_def skeleton_def)

lemma types_IndexBase_add [simp]: "types (IndexBase_add ib e cs) = types ib"
  by (simp add: IndexBase_add_def Let_def split: prod.splits)

lemma types_IndexBase_remove [simp]: "types (snd (IndexBase_remove ib e)) = types ib"
  by (simp add: IndexBase_remove_def Let_def split: option.splits)

lemma types_IndexBase_emplace: "IndexBase_emplace ib e t c = Inr (b, ib') \<Longrightarrow> types ib' = types ib"
  by (auto simp: IndexBase_emplace_def split: option.splits)

lemma types_IndexIteratorBase_new: "IndexIteratorBase_new r ib ns = (it, ib') \<Longrightarrow> types ib' = types ib"
  by (auto simp: IndexIteratorBase_new_def observeAddVer_def observeRemVer_def Let_def)

lemma skeleton_put_index:
  "lookup_index w a = Some ib \<Longrightarrow> types ib' = types ib \<Longrightarrow> skeleton (put_index w a ib') = skeleton w"
  by (auto simp: skeleton_def put_index_def lookup_index_def map_update list_update_same_conv
      split: if_splits)

lemma skeleton_emplace_indexes:
  "skeleton (snd (emplace_indexes e t c as w)) = skeleton w"
proof (induction as arbitrary: w)
  case Nil show ?case by simp
next
  case (Cons a as)
  show ?case
  proof (cases "lookup_index w a")
    case None then show ?thesis by simp
  next
    case (Some ib)
    show ?thesis
    proof (cases "IndexBase_emplace ib e t c")
      case (Inl err) then show ?thesis using Some by simp
    next
      case (Inr r)
      obtain b ib' where r: "r = (b, ib')" by (cases r)
      have ty: "types ib' = types ib" using Inr r types_IndexBase_emplace by blast
      show ?thesis
      proof (cases b)
        case True
        then show ?thesis using Some Inr r Cons [of "put_index w a ib'"]
          by (simp add: skeleton_put_index [OF Some ty])
      next
        case False
        show ?thesis
        proof (cases "gather_all (components w) e (types ib)")
          case (Inl err) then show ?thesis using Some Inr r False by simp
        next
          case (Inr g)
          show ?thesis
          proof (cases g)
            case None
            then show ?thesis
              using Some \<open>IndexBase_emplace ib e t c = Inr r\<close> r False Inr Cons [of w] by simp
          next
            case (Some ecs)
            have "skeleton (put_index w a (IndexBase_add ib e (map Some ecs))) = skeleton w"
              by (rule skeleton_put_index [OF \<open>lookup_index w a = Some ib\<close>]) simp
            then show ?thesis
              using \<open>lookup_index w a = Some ib\<close> \<open>IndexBase_emplace ib e t c = Inr r\<close> r False Inr Some
                Cons [of "put_index w a (IndexBase_add ib e (map Some ecs))"] by simp
          qed
        qed
      qed
    qed
  qed
qed

lemma skeleton_fold_steps:
  assumes "\<And>x w. skeleton (snd (body x w)) = skeleton w"
  shows "skeleton (snd (fold_steps body xs w)) = skeleton w"
proof (induction xs arbitrary: w)
  case Nil show ?case by simp
next
  case (Cons x xs)
  obtain r w' where b: "body x w = (r, w')" by (cases "body x w")
  have s: "skeleton w' = skeleton w" using assms [of x w] b by simp
  show ?case
  proof (cases r)
    case None then show ?thesis using b Cons [of w'] s by simp
  next
    case (Some e) then show ?thesis using b s by simp
  qed
qed

lemma skeleton_remove_from_index: "skeleton (snd (remove_from_index e a w)) = skeleton w"
  by (auto simp: remove_from_index_def skeleton_put_index split: option.splits)

lemma skeleton_destroy_remove: "skeleton (snd (destroy_remove e v w)) = skeleton w"
  by (auto simp: destroy_remove_def skeleton_remove_from_index split: option.splits)

lemma skeleton_create_add: "skeleton (snd (create_add e v w)) = skeleton w"
  by (auto simp: create_add_def skeleton_put_index split: option.splits sum.splits)

lemma skeleton_seed_index: "skeleton (snd (seed_index a tys es w)) = skeleton w"
proof (induction es arbitrary: w)
  case Nil show ?case by simp
next
  case (Cons x es)
  show ?case
    using Cons
    by (auto simp: skeleton_put_index split: sum.splits option.splits)
qed

lemma skeleton_new_iterator: "skeleton (snd (new_iterator w a ns)) = skeleton w"
  by (auto simp: new_iterator_def skeleton_put_index types_IndexIteratorBase_new
      split: option.splits prod.splits)

lemma path_World_subIt [simp]: "path (World_subIt w) 0 = Some (indexByComponents w)"
  by (simp add: World_subIt_def TrieSubsequenceIterator_new_def reset_path0)

lemma for_each_World:
  "for_each body (reset (Some q) None (World_subIt w)) a =
     Some (fold_steps body (map Some (subsequence_values (indexByComponents w) q)) a)"
  by (rule for_each_reset) simp

lemma set_update_subset: "set (AList.update k v al) \<subseteq> insert (k, v) (set al)"
  by (induction al) auto

lemma comps_ok_mono: "comps_ok es cs \<Longrightarrow> set es \<subseteq> set es' \<Longrightarrow> comps_ok es' cs"
  unfolding comps_ok_def by blast

lemma comps_ok_store:
  assumes "comps_ok es cs" "e \<in> set es"
  shows "comps_ok es (AList.update (constructor_name c)
            ((case map_of cs (constructor_name c) of None \<Rightarrow> Map.empty | Some st \<Rightarrow> st)(e \<mapsto> c)) cs)"
proof -
  let ?st = "case map_of cs (constructor_name c) of None \<Rightarrow> Map.empty | Some st \<Rightarrow> st"
  have old: "e' \<in> set es \<and> constructor_name c' = constructor_name c" if "?st e' = Some c'" for e' c'
  proof (cases "map_of cs (constructor_name c)")
    case None then show ?thesis using that by simp
  next
    case (Some st)
    then have "(constructor_name c, st) \<in> set cs" by (rule map_of_SomeD)
    then show ?thesis using that Some assms(1) unfolding comps_ok_def by auto
  qed
  show ?thesis
    unfolding comps_ok_def
  proof (intro ballI, clarify)
    fix T stor e' c'
    assume m: "(T, stor) \<in> set (AList.update (constructor_name c) (?st(e \<mapsto> c)) cs)"
      and s: "stor e' = Some c'"
    from m set_update_subset have "(T, stor) = (constructor_name c, ?st(e \<mapsto> c)) \<or> (T, stor) \<in> set cs"
      by fastforce
    then show "e' \<in> set es \<and> constructor_name c' = T"
    proof
      assume "(T, stor) = (constructor_name c, ?st(e \<mapsto> c))"
      then show ?thesis using s old [of e' c'] assms(2) by (auto split: if_splits)
    next
      assume "(T, stor) \<in> set cs"
      then show ?thesis using s assms(1) unfolding comps_ok_def by auto
    qed
  qed
qed

lemma comps_ok_delete:
  assumes "comps_ok es cs" "map_of cs t = Some stor"
  shows "comps_ok es (AList.update t (stor(e := None)) cs)"
  unfolding comps_ok_def
proof (intro ballI, clarify)
  fix T st e' c'
  assume m: "(T, st) \<in> set (AList.update t (stor(e := None)) cs)" and s: "st e' = Some c'"
  from m set_update_subset have "(T, st) = (t, stor(e := None)) \<or> (T, st) \<in> set cs"
    by fastforce
  then show "e' \<in> set es \<and> constructor_name c' = T"
  proof
    assume a: "(T, st) = (t, stor(e := None))"
    have "(t, stor) \<in> set cs" using assms(2) by (rule map_of_SomeD)
    then show ?thesis using a s assms(1) unfolding comps_ok_def by (auto split: if_splits)
  next
    assume "(T, st) \<in> set cs"
    then show ?thesis using s assms(1) unfolding comps_ok_def by auto
  qed
qed

lemma comps_ok_register: "comps_ok es cs \<Longrightarrow> comps_ok es (cs @ [(t, Map.empty)])"
  unfolding comps_ok_def by auto

lemma destroy_collect_comps:
  "snd (snd (destroy_collect hooks e cs)) = map (\<lambda>(k, stor). (k, stor(e := None))) cs"
  by (induction cs) (auto split: prod.splits option.splits)

lemma comps_ok_destroy:
  assumes "comps_ok es cs"
  shows "comps_ok (removeAll e es) (map (\<lambda>(k, stor). (k, stor(e := None))) cs)"
  using assms unfolding comps_ok_def by (auto split: if_splits)

lemma getInTrie_empty [simp]: "getInTrie (Trie None []) ks = None"
  by (cases ks) simp_all

lemma getInTrie_setInTrie:
  "getInTrie (setInTrie t k v) k' = (if k' = k then Some v else getInTrie t k')"
proof (induction k arbitrary: t k')
  case Nil
  show ?case by (cases k') simp_all
next
  case (Cons s sq)
  show ?case
  proof (cases k')
    case Nil
    then show ?thesis by (simp split: option.splits)
  next
    case (Cons s' sq')
    show ?thesis
    proof (cases "map_of (branches t) s")
      case None
      then show ?thesis
        using Cons Cons.IH [of "Trie None []" sq']
        by (auto simp: map_add_def split: option.splits)
    next
      case (Some b)
      then show ?thesis
        using Cons Cons.IH [of b sq']
        by (auto simp: update_conv' split: option.splits)
    qed
  qed
qed

lemma insert_by_spec_set: "set (insert_by cmp x ys) = insert x (set ys)"
  by (induction ys) auto

lemma sorted_insert_by_spec:
  "sorted (map snd ys) \<Longrightarrow> sorted (map snd (insert_by index_indexComponentSpecOrd x ys))"
  by (induction ys) (auto simp: index_indexComponentSpecOrd_def insert_by_spec_set split: if_splits)

lemma sorted_sort_by_spec: "sorted (map snd (sort_by index_indexComponentSpecOrd xs))"
  by (induction xs) (simp_all add: sort_by_def sorted_insert_by_spec)

lemma first_duplicate_distinct:
  "sorted ts \<Longrightarrow> first_duplicate p ts = None \<Longrightarrow> (\<And>x. p = Some x \<Longrightarrow> \<forall>t \<in> set ts. x \<le> t) \<Longrightarrow>
     distinct ts \<and> (\<forall>x. p = Some x \<longrightarrow> x \<notin> set ts)"
proof (induction ts arbitrary: p)
  case Nil show ?case by simp
next
  case (Cons t ts)
  from Cons.prems(2) have ne: "Some t \<noteq> p" and r: "first_duplicate (Some t) ts = None"
    by (auto split: if_splits)
  from Cons.prems(1) have s: "sorted ts" and le: "\<forall>u \<in> set ts. t \<le> u" by auto
  from Cons.IH [OF s r] le have d: "distinct ts" and n: "t \<notin> set ts" by auto
  have "x \<notin> set (t # ts)" if "p = Some x" for x
  proof -
    from that Cons.prems(3) have "x \<le> t" by auto
    moreover have "x \<noteq> t" using ne that by auto
    ultimately have "x < t" by simp
    then show ?thesis using le by auto
  qed
  then show ?case using d n by auto
qed

lemma reg_ok_set:
  assumes "reg_ok trie tss" "getInTrie trie tys = None" "sorted tys" "distinct tys"
  shows "reg_ok (setInTrie trie tys (length tss)) (tss @ [tys])"
  unfolding reg_ok_def
proof (intro allI impI)
  fix ts a
  assume g: "getInTrie (setInTrie trie tys (length tss)) ts = Some a"
  show "sorted ts \<and> distinct ts \<and> a < length (tss @ [tys]) \<and> (tss @ [tys]) ! a = ts"
  proof (cases "ts = tys")
    case True
    with g have "a = length tss" by (simp add: getInTrie_setInTrie)
    then show ?thesis using True assms(3,4) by simp
  next
    case False
    with g have "getInTrie trie ts = Some a" by (simp add: getInTrie_setInTrie)
    with assms(1) have "sorted ts \<and> distinct ts \<and> a < length tss \<and> tss ! a = ts"
      unfolding reg_ok_def by blast
    then show ?thesis by (simp add: nth_append)
  qed
qed

lemma store_component_fields [simp]:
  "entitySequence (store_component w e c) = entitySequence w"
  "entities (store_component w e c) = entities w"
  "indexesByComponent (store_component w e c) = indexesByComponent w"
  "indexByComponents (store_component w e c) = indexByComponents w"
  "indexBases (store_component w e c) = indexBases w"
  by (simp_all add: store_component_def Let_def)

lemma world_inv_store_component:
  "world_inv w \<Longrightarrow> e \<in> set (entities w) \<Longrightarrow> world_inv (store_component w e c)"
  unfolding world_inv_def
  by (simp add: comps_ok_store) (simp add: store_component_def Let_def comps_ok_store)

lemma fold_store_fields [simp]:
  "entitySequence (fold (\<lambda>c w. store_component w e c) cs w) = entitySequence w"
  "entities (fold (\<lambda>c w. store_component w e c) cs w) = entities w"
  "indexesByComponent (fold (\<lambda>c w. store_component w e c) cs w) = indexesByComponent w"
  "indexByComponents (fold (\<lambda>c w. store_component w e c) cs w) = indexByComponents w"
  "indexBases (fold (\<lambda>c w. store_component w e c) cs w) = indexBases w"
  by (induction cs arbitrary: w) simp_all

lemma world_inv_fold_store:
  "world_inv w \<Longrightarrow> e \<in> set (entities w) \<Longrightarrow> world_inv (fold (\<lambda>c w. store_component w e c) cs w)"
  by (induction cs arbitrary: w) (simp_all add: world_inv_store_component)

lemma set_set_add [simp]: "set (set_add e es) = insert e (set es)"
  by (auto simp: set_add_def)

lemma skeleton_World_emplace:
  "skeleton (snd (World_emplace w e c)) =
     (if e \<in> set (entities w) then skeleton (store_component w e c) else skeleton w)"
  by (simp add: World_emplace_def Let_def skeleton_emplace_indexes split: option.splits)

lemma world_inv_World_emplace: "world_inv w \<Longrightarrow> world_inv (snd (World_emplace w e c))"
  using skeleton_World_emplace [of w e c] world_inv_skeleton world_inv_store_component
  by (metis (full_types))

lemma World_emplace_fields:
  "entitySequence (snd (World_emplace w e c)) = entitySequence w"
  "entities (snd (World_emplace w e c)) = entities w"
  using skeleton_World_emplace [of w e c]
  by (auto simp: skeleton_def split: if_splits)

lemma emplace_each_fields:
  "entitySequence (snd (emplace_each e cs w)) = entitySequence w \<and>
   entities (snd (emplace_each e cs w)) = entities w"
proof (induction cs arbitrary: w)
  case Nil show ?case by simp
next
  case (Cons c cs)
  obtain r w' where p: "World_emplace w e c = (r, w')" by (cases "World_emplace w e c")
  have "entitySequence (snd (World_emplace w e c)) = entitySequence w"
    "entities (snd (World_emplace w e c)) = entities w"
    by (rule World_emplace_fields)+
  then have f: "entitySequence w' = entitySequence w" "entities w' = entities w"
    by (simp_all add: p)
  show ?case using p Cons [of w'] f by (cases r) simp_all
qed

lemma world_inv_emplace_each: "world_inv w \<Longrightarrow> world_inv (snd (emplace_each e cs w))"
proof (induction cs arbitrary: w)
  case Nil then show ?case by simp
next
  case (Cons c cs)
  obtain r w' where p: "World_emplace w e c = (r, w')" by (cases "World_emplace w e c")
  from Cons.prems have "world_inv (snd (World_emplace w e c))" by (rule world_inv_World_emplace)
  then have "world_inv w'" by (simp add: p)
  then show ?case using p Cons.IH [of w'] by (cases r) simp_all
qed

lemma World_insert_props:
  "world_inv w \<Longrightarrow> world_inv (snd (World_insert w e cs))"
  "entitySequence (snd (World_insert w e cs)) = (if e > entitySequence w then e + 1 else entitySequence w)"
  "set (entities (snd (World_insert w e cs))) = insert e (set (entities w))"
proof -
  let ?w1 = "if e > entitySequence w then w\<lparr>entitySequence := e + 1\<rparr> else w"
  let ?w2 = "?w1\<lparr>entities := set_add e (entities ?w1)\<rparr>"
  have s: "snd (World_insert w e cs) = snd (emplace_each e cs ?w2)"
    by (simp add: World_insert_def Let_def split: prod.splits option.splits)
  show "entitySequence (snd (World_insert w e cs)) = (if e > entitySequence w then e + 1 else entitySequence w)"
    unfolding s using emplace_each_fields [of e cs ?w2] by simp
  show "set (entities (snd (World_insert w e cs))) = insert e (set (entities w))"
    unfolding s using emplace_each_fields [of e cs ?w2] by simp
  assume "world_inv w"
  then have "world_inv ?w2"
    unfolding world_inv_def by (auto intro: comps_ok_mono)
  then show "world_inv (snd (World_insert w e cs))"
    unfolding s by (rule world_inv_emplace_each)
qed

lemma World_create_eq:
  "World_create w cs =
     (case first_duplicate None (sort (map constructor_name cs)) of
        Some t \<Rightarrow> Some (Inl (DuplicateComponentType t), create_stored w cs)
      | None \<Rightarrow>
          (case fold_steps (create_add (entitySequence w))
                  (map Some (subsequence_values (indexByComponents (create_stored w cs))
                     (sort (map constructor_name cs))))
                  (create_stored w cs) of
             (Some e, w3) \<Rightarrow> Some (Inl e, w3)
           | (None, w3) \<Rightarrow> Some (Inr (entitySequence w), w3)))"
  by (simp add: World_create_def Let_def create_stored_def for_each_World split: option.splits)

lemma World_create_total: "\<exists>r w'. World_create w cs = Some (r, w')"
  unfolding World_create_eq by (auto split: option.splits prod.splits)

lemma World_create_skeleton:
  assumes "World_create w cs = Some (r, w')"
  shows "skeleton w' = skeleton (create_stored w cs)"
proof -
  have "skeleton (snd (fold_steps (create_add (entitySequence w)) xs (create_stored w cs)))
      = skeleton (create_stored w cs)" for xs
    by (rule skeleton_fold_steps) (rule skeleton_create_add)
  then show ?thesis
    using assms unfolding World_create_eq
    by (auto split: option.splits prod.splits) (metis snd_conv)+
qed

lemma create_stored_fields [simp]:
  "entitySequence (create_stored w cs) = entitySequence w + 1"
  "entities (create_stored w cs) = set_add (entitySequence w) (entities w)"
  "indexesByComponent (create_stored w cs) = indexesByComponent w"
  "indexByComponents (create_stored w cs) = indexByComponents w"
  "indexBases (create_stored w cs) = indexBases w"
  by (simp_all add: create_stored_def)

lemma world_inv_create_stored: "world_inv w \<Longrightarrow> world_inv (create_stored w cs)"
  unfolding create_stored_def
proof (rule world_inv_fold_store)
  assume "world_inv w"
  then show "world_inv (w\<lparr>entitySequence := entitySequence w + 1,
      entities := set_add (entitySequence w) (entities w)\<rparr>)"
    unfolding world_inv_def by (auto intro: comps_ok_mono)
  show "entitySequence w \<in> set (entities (w\<lparr>entitySequence := entitySequence w + 1,
      entities := set_add (entitySequence w) (entities w)\<rparr>))"
    by simp
qed

lemma world_inv_World_create:
  "world_inv w \<Longrightarrow> World_create w cs = Some (r, w') \<Longrightarrow> world_inv w'"
  using World_create_skeleton world_inv_skeleton world_inv_create_stored by blast

lemma skeleton_World_remove:
  "skeleton (snd (World_remove w e t)) =
     (case map_of (components w) t of
        None \<Rightarrow> skeleton w
      | Some stor \<Rightarrow> skeleton (w\<lparr>components := AList.update t (stor(e := None)) (components w)\<rparr>))"
proof (cases "map_of (components w) t")
  case None then show ?thesis by (simp add: World_remove_def)
next
  case (Some stor)
  let ?w1 = "w\<lparr>components := AList.update t (stor(e := None)) (components w)\<rparr>"
  have f: "skeleton (snd (fold_steps (remove_from_index e) xs ?w1)) = skeleton ?w1" for xs
    by (rule skeleton_fold_steps) (rule skeleton_remove_from_index)
  show ?thesis
    using Some f
    by (auto simp: World_remove_def Let_def split: option.splits prod.splits) (metis snd_conv)+
qed

lemma world_inv_World_remove: "world_inv w \<Longrightarrow> world_inv (snd (World_remove w e t))"
proof (cases "map_of (components w) t")
  case None
  assume i: "world_inv w"
  have "skeleton (snd (World_remove w e t)) = skeleton w"
    using None skeleton_World_remove [of w e t] by simp
  then show ?thesis using i world_inv_skeleton by blast
next
  case (Some stor)
  assume i: "world_inv w"
  let ?w1 = "w\<lparr>components := AList.update t (stor(e := None)) (components w)\<rparr>"
  have "world_inv ?w1"
    using i Some unfolding world_inv_def by (simp add: comps_ok_delete)
  moreover have "skeleton (snd (World_remove w e t)) = skeleton ?w1"
    using Some skeleton_World_remove [of w e t] by simp
  ultimately show ?thesis using world_inv_skeleton by blast
qed

lemma destroy_cleanup_eq:
  "destroy_cleanup hooks w e =
     (case fold_steps (destroy_remove e)
             (map Some (subsequence_values (indexByComponents w)
                (sort (fst (destroy_collect hooks e (components w))))))
             (destroyed w e) of
        (r, w3) \<Rightarrow> Some (r, fst (snd (destroy_collect hooks e (components w))), w3))"
proof -
  obtain tys frees cs where c: "destroy_collect hooks e (components w) = (tys, frees, cs)"
    by (cases "destroy_collect hooks e (components w)") auto
  then have cs: "cs = map (\<lambda>(k, stor). (k, stor(e := None))) (components w)"
    using destroy_collect_comps [of hooks e "components w"] by simp
  show ?thesis
    by (simp add: destroy_cleanup_def Let_def c for_each_World destroyed_def cs
        split: prod.splits option.splits)
qed

lemma destroy_cleanup_skeleton:
  assumes "destroy_cleanup hooks w e = Some (r, frees, w3)"
  shows "skeleton w3 = skeleton (destroyed w e)"
proof -
  have "skeleton (snd (fold_steps (destroy_remove e) xs (destroyed w e))) = skeleton (destroyed w e)" for xs
    by (rule skeleton_fold_steps) (rule skeleton_destroy_remove)
  then show ?thesis
    using assms unfolding destroy_cleanup_eq
    by (auto split: prod.splits) (metis snd_conv)
qed

lemma world_inv_destroyed: "world_inv w \<Longrightarrow> world_inv (destroyed w e)"
  unfolding world_inv_def destroyed_def set_delete_def
  by (simp add: comps_ok_destroy)

lemma no_hooks_collect: "fst (snd (destroy_collect (\<lambda>c. None) e cs)) = []"
  by (induction cs) (auto split: prod.splits option.splits)

lemma world_inv_World_destroy:
  assumes "world_inv w" "World_destroy (\<lambda>c. None) w e = Some (r, w')"
  shows "world_inv w'"
proof -
  obtain r0 frees w3 where c: "destroy_cleanup (\<lambda>c. None) w e = Some (r0, frees, w3)"
    using assms(2) by (auto simp: World_destroy_def split: option.splits)
  then have "frees = []"
    unfolding destroy_cleanup_eq using no_hooks_collect by (auto split: prod.splits)
  then have "w' = w3"
    using assms(2) c by (auto simp: World_destroy_def split: option.splits)
  then show ?thesis
    using destroy_cleanup_skeleton [OF c] world_inv_skeleton world_inv_destroyed [OF assms(1)]
    by blast
qed

lemma register_type_fields [simp]:
  "entitySequence (register_type w t) = entitySequence w"
  "entities (register_type w t) = entities w"
  "indexesByComponent (register_type w t) = indexesByComponent w"
  "indexByComponents (register_type w t) = indexByComponents w"
  "indexBases (register_type w t) = indexBases w"
  by (simp_all add: register_type_def split: option.splits)

lemma world_inv_register_type: "world_inv w \<Longrightarrow> world_inv (register_type w t)"
  unfolding world_inv_def
  by (simp) (simp add: register_type_def comps_ok_register split: option.splits)

lemma fold_register_fields [simp]:
  "entitySequence (fold (\<lambda>(name, type) w. register_type w type) sp w) = entitySequence w"
  "entities (fold (\<lambda>(name, type) w. register_type w type) sp w) = entities w"
  "indexesByComponent (fold (\<lambda>(name, type) w. register_type w type) sp w) = indexesByComponent w"
  "indexByComponents (fold (\<lambda>(name, type) w. register_type w type) sp w) = indexByComponents w"
  "indexBases (fold (\<lambda>(name, type) w. register_type w type) sp w) = indexBases w"
  by (induction sp arbitrary: w) (simp_all split: prod.splits)

lemma world_inv_fold_register:
  "world_inv w \<Longrightarrow> world_inv (fold (\<lambda>(name, type) w. register_type w type) sp w)"
  by (induction sp arbitrary: w) (simp_all add: world_inv_register_type split: prod.splits)

lemma world_inv_World_index: "world_inv w \<Longrightarrow> world_inv (snd (World_index w sp))"
proof -
  assume i: "world_inv w"
  let ?w1 = "fold (\<lambda>(name, type) w. register_type w type) sp w"
  let ?specs = "sort_by index_indexComponentSpecOrd sp"
  let ?tys = "map snd ?specs"
  let ?ns = "map fst ?specs"
  have i1: "world_inv ?w1" using i by (rule world_inv_fold_register)
  show ?thesis
  proof (cases "first_duplicate None ?tys")
    case (Some t)
    then show ?thesis using i1 by (simp add: World_index_def Let_def)
  next
    case None
    have st: "sorted ?tys" by (rule sorted_sort_by_spec)
    have di: "distinct ?tys" using first_duplicate_distinct [OF st None] by simp
    show ?thesis
    proof (cases "getInTrie (indexByComponents ?w1) ?tys")
      case (Some a)
      have "snd (World_index w sp) = snd (new_iterator ?w1 a ?ns)"
        using None Some by (simp add: World_index_def Let_def)
      moreover have "world_inv (snd (new_iterator ?w1 a ?ns))"
        using i1 skeleton_new_iterator [of ?w1 a ?ns] world_inv_skeleton by blast
      ultimately show ?thesis by simp
    next
      case N: None
      let ?a = "length (indexBases ?w1)"
      let ?w2 = "?w1\<lparr>indexBases := indexBases ?w1 @ [IndexBase_new ?tys],
                     indexByComponents := setInTrie (indexByComponents ?w1) ?tys ?a,
                     indexesByComponent := register_index ?a ?tys (indexesByComponent ?w1)\<rparr>"
      have r: "reg_ok (setInTrie (indexByComponents ?w1) ?tys (length (map types (indexBases ?w1))))
          (map types (indexBases ?w1) @ [?tys])"
        using i1 N st di unfolding world_inv_def by (intro reg_ok_set) simp_all
      have i2: "world_inv ?w2"
        using i1 r unfolding world_inv_def by (simp add: IndexBase_new_def)
      obtain r3 w3 where s: "seed_index ?a ?tys (entities ?w2) ?w2 = (r3, w3)"
        by (cases "seed_index ?a ?tys (entities ?w2) ?w2")
      have sk3: "skeleton w3 = skeleton ?w2"
        using skeleton_seed_index [of ?a ?tys "entities ?w2" ?w2] unfolding s
        by (simp only: snd_conv)
      then have i3: "world_inv w3" using i2 world_inv_skeleton by blast
      have e: "snd (World_index w sp) = (case r3 of Some e \<Rightarrow> w3 | None \<Rightarrow> snd (new_iterator w3 ?a ?ns))"
        using None N s by (simp add: World_index_def Let_def split: option.splits)
      have i4: "world_inv (snd (new_iterator w3 ?a ?ns))"
        using i3 skeleton_new_iterator [of w3 ?a ?ns] world_inv_skeleton by blast
      show ?thesis
        unfolding e using i3 i4 by (cases r3) simp_all
    qed
  qed
qed

lemma world_inv_registerSingleton: "world_inv w \<Longrightarrow> world_inv (snd (registerSingleton w c))"
proof -
  assume i: "world_inv w"
  let ?w1 = "if singletonEntity \<notin> set (entities w)
                then w\<lparr>entities := set_add singletonEntity (entities w)\<rparr> else w"
  have "world_inv ?w1" using i unfolding world_inv_def by (auto intro: comps_ok_mono)
  then show ?thesis
    unfolding registerSingleton_def Let_def by (rule world_inv_World_emplace)
qed

lemma world_inv_removeSingleton: "world_inv w \<Longrightarrow> world_inv (snd (removeSingleton w t))"
  using world_inv_World_remove [of w singletonEntity t]
  by (auto simp: removeSingleton_def split: prod.splits sum.splits)

lemma world_inv_new: "world_inv World_new"
  by (simp add: world_inv_def World_new_def comps_ok_def reg_ok_def)

lemma world_inv_apply_op: "world_inv w \<Longrightarrow> apply_op w op = Some w' \<Longrightarrow> world_inv w'"
proof (cases op)
  case (Create cs)
  assume "world_inv w" "apply_op w op = Some w'"
  then show ?thesis using Create world_inv_World_create by auto
next
  case (Insert e cs)
  assume "world_inv w" "apply_op w op = Some w'"
  then show ?thesis using Insert World_insert_props(1) by auto
next
  case (Emplace e c)
  assume "world_inv w" "apply_op w op = Some w'"
  then show ?thesis using Emplace world_inv_World_emplace by auto
next
  case (Remove e t)
  assume "world_inv w" "apply_op w op = Some w'"
  then show ?thesis using Remove world_inv_World_remove by auto
next
  case (Destroy e)
  assume "world_inv w" "apply_op w op = Some w'"
  then show ?thesis using Destroy world_inv_World_destroy by auto
next
  case (Index sp)
  assume "world_inv w" "apply_op w op = Some w'"
  then show ?thesis using Index world_inv_World_index by auto
next
  case (RegisterSingleton c)
  assume "world_inv w" "apply_op w op = Some w'"
  then show ?thesis using RegisterSingleton world_inv_registerSingleton by auto
next
  case (RemoveSingleton t)
  assume "world_inv w" "apply_op w op = Some w'"
  then show ?thesis using RemoveSingleton world_inv_removeSingleton by auto
qed

lemma reachable_inv: "reachable w \<Longrightarrow> world_inv w"
  by (induction rule: reachable.induct) (auto intro: world_inv_new world_inv_apply_op)

lemma subseq_set_subset: "subseq xs ys \<Longrightarrow> set xs \<subseteq> set ys"
  by (metis subseq_conv_nths set_nths_subset)

lemma in_subsequence_values:
  "a \<in> set (subsequence_values t q) \<longleftrightarrow> (\<exists>p. subseq p q \<and> getInTrie t p = Some a)"
proof -
  have "set (subsequence_values t q) = set (List.map_filter (getInTrie t) (subseqs q))"
    using mset_subsequence_values [of t q] by (metis set_mset_mset)
  also have "\<dots> = {y. \<exists>p. subseq p q \<and> getInTrie t p = Some y}"
    by (force simp: List.map_filter_def image_iff)
  finally show ?thesis by simp
qed

lemma registry_entry:
  assumes "world_inv w" "getInTrie (indexByComponents w) ts = Some a"
  shows "sorted ts" "distinct ts" "a < length (indexBases w)" "types (indexBases w ! a) = ts"
proof -
  from assms have r: "sorted ts \<and> distinct ts \<and> a < length (map types (indexBases w)) \<and>
      map types (indexBases w) ! a = ts"
    unfolding world_inv_def reg_ok_def by blast
  then show "sorted ts" "distinct ts" "a < length (indexBases w)" by simp_all
  from r have l: "a < length (indexBases w)" and m: "map types (indexBases w) ! a = ts"
    by simp_all
  show "types (indexBases w ! a) = ts"
    using m nth_map [OF l, of types] by simp
qed

lemma first_duplicate_None:
  "sorted ts \<Longrightarrow> distinct ts \<Longrightarrow> (\<And>x. p = Some x \<Longrightarrow> x \<notin> set ts) \<Longrightarrow> first_duplicate p ts = None"
  by (induction ts arbitrary: p) auto

lemma gather_ok:
  "(\<And>t. t \<in> set ts \<Longrightarrow> map_of cs t \<noteq> None) \<Longrightarrow> \<exists>ecs. gather cs e ts = Inr ecs"
  by (induction ts) (auto split: option.splits)

lemma stored_type:
  "map_of (components (store_component w e c)) t \<noteq> None \<longleftrightarrow>
     t = constructor_name c \<or> map_of (components w) t \<noteq> None"
  by (simp add: store_component_def Let_def update_conv')

lemma fold_stored_types:
  "map_of (components (fold (\<lambda>c w. store_component w e c) cs w)) t \<noteq> None \<longleftrightarrow>
     t \<in> constructor_name ` set cs \<or> map_of (components w) t \<noteq> None"
proof (induction cs arbitrary: w)
  case Nil show ?case by simp
next
  case (Cons c cs)
  show ?case
    unfolding fold_simps Cons [of "store_component w e c"] stored_type by auto
qed

lemma create_stored_types:
  "c \<in> set cs \<Longrightarrow> map_of (components (create_stored w cs)) (constructor_name c) \<noteq> None"
  unfolding create_stored_def fold_stored_types by simp

lemma create_loop_ok:
  assumes "\<And>a. a \<in> set as \<Longrightarrow> a < length (indexBases w) \<and>
              (\<forall>t \<in> set (types (indexBases w ! a)). map_of (components w) t \<noteq> None)"
  shows "fst (fold_steps (create_add e) (map Some as) w) = None"
  using assms
proof (induction as arbitrary: w)
  case Nil show ?case by simp
next
  case (Cons a as)
  from Cons.prems [of a] have a: "a < length (indexBases w)"
    and t: "\<And>t. t \<in> set (types (indexBases w ! a)) \<Longrightarrow> map_of (components w) t \<noteq> None"
    by auto
  have l: "lookup_index w a = Some (indexBases w ! a)" using a by (simp add: lookup_index_def)
  from gather_ok [of "types (indexBases w ! a)" "components w" e] t
  obtain ecs where g: "gather (components w) e (types (indexBases w ! a)) = Inr ecs" by blast
  let ?w' = "put_index w a (IndexBase_add (indexBases w ! a) e ecs)"
  have c: "create_add e (Some a) w = (None, ?w')"
    by (simp add: create_add_def l g)
  have sk: "skeleton ?w' = skeleton w"
    by (rule skeleton_put_index [OF l]) simp
  have "fst (fold_steps (create_add e) (map Some as) ?w') = None"
  proof (rule Cons.IH)
    fix b assume "b \<in> set as"
    then have "b < length (indexBases w) \<and>
              (\<forall>t \<in> set (types (indexBases w ! b)). map_of (components w) t \<noteq> None)"
      using Cons.prems [of b] by simp
    then show "b < length (indexBases ?w') \<and>
              (\<forall>t \<in> set (types (indexBases ?w' ! b)). map_of (components ?w') t \<noteq> None)"
      using skeleton_fields [OF sk] by simp
  qed
  then show ?case using c by simp
qed

lemma create_success:
  assumes "world_inv w" "distinct (map constructor_name cs)"
  shows "\<exists>w'. World_create w cs = Some (Inr (entitySequence w), w')"
proof -
  let ?q = "sort (map constructor_name cs)"
  let ?w2 = "create_stored w cs"
  have d: "first_duplicate None ?q = None"
    using assms(2) by (intro first_duplicate_None) simp_all
  have i2: "world_inv ?w2" using assms(1) by (rule world_inv_create_stored)
  have "fst (fold_steps (create_add (entitySequence w))
          (map Some (subsequence_values (indexByComponents ?w2) ?q)) ?w2) = None"
  proof (rule create_loop_ok)
    fix a assume "a \<in> set (subsequence_values (indexByComponents ?w2) ?q)"
    then obtain p where p: "subseq p ?q" "getInTrie (indexByComponents ?w2) p = Some a"
      unfolding in_subsequence_values by blast
    have v: "a < length (indexBases ?w2)" "types (indexBases ?w2 ! a) = p"
      using registry_entry [OF i2 p(2)] by simp_all
    have "map_of (components ?w2) t \<noteq> None" if "t \<in> set p" for t
    proof -
      from that p(1) have "t \<in> set ?q" using subseq_set_subset by blast
      then obtain c where "c \<in> set cs" "t = constructor_name c" by auto
      then show ?thesis using create_stored_types by simp
    qed
    then show "a < length (indexBases ?w2) \<and>
              (\<forall>t \<in> set (types (indexBases ?w2 ! a)). map_of (components ?w2) t \<noteq> None)"
      using v by simp
  qed
  then show ?thesis
    unfolding World_create_eq using d by (auto split: prod.splits)
qed

lemma create_returns_sequence:
  "World_create w cs = Some (Inr e, w') \<Longrightarrow> e = entitySequence w"
  unfolding World_create_eq by (auto split: option.splits prod.splits)

lemma registerSingleton_entities:
  "entities (snd (registerSingleton w c)) = set_add singletonEntity (entities w)"
proof -
  let ?w1 = "if singletonEntity \<notin> set (entities w)
                then w\<lparr>entities := set_add singletonEntity (entities w)\<rparr> else w"
  have "entities (snd (registerSingleton w c)) = entities ?w1"
    unfolding registerSingleton_def Let_def by (rule World_emplace_fields)
  then show ?thesis by (simp add: set_add_def)
qed




text \<open>
  C6, as the claim states it, fails: the entity sequence of a new world starts at 0, so
  the first \<open>create\<close> returns the entity 0, which is not positive.
\<close>

theorem create_returns_zero_counterexample:
  "\<exists>w'. World_create World_new [] = Some (Inr 0, w') \<and> \<not> (0 :: Entity) > 0"
  using create_success [OF world_inv_new, of "[]"] by (simp add: World_new_def)

text \<open>
  C6 (amended): every entity id returned by \<open>create\<close> is a non-negative integer, the
  value of the entity sequence before the call (0 for the first \<open>create\<close> in a new
  world); \<open>create\<close> never returns the singleton entity -2 or the Null entity -1, and it
  always returns or throws.
\<close>

theorem create_ids_nonnegative:
  "reachable w \<Longrightarrow>
     (\<exists>r w'. World_create w cs = Some (r, w')) \<and>
     (\<forall>e w'. World_create w cs = Some (Inr e, w') \<longrightarrow>
         e = entitySequence w \<and> 0 \<le> e \<and> e \<noteq> singletonEntity \<and> e \<noteq> Null)"
proof -
  assume r: "reachable w"
  then have "0 \<le> entitySequence w" using reachable_inv by (simp add: world_inv_def)
  then show ?thesis
    using World_create_total [of w cs] create_returns_sequence [of w cs]
    by (auto simp: singletonEntity_def Null_def)
qed

theorem create_ids_nonnegative_witness:
  "reachable World_new \<and>
   (\<exists>w'. World_create World_new [cA] = Some (Inr 0, w') \<and>
      (0 :: Entity) \<ge> 0 \<and> 0 \<noteq> singletonEntity \<and> 0 \<noteq> Null)"
proof -
  obtain w' where c: "World_create World_new [cA] = Some (Inr 0, w')"
    using create_success [OF world_inv_new, of "[cA]"] by (auto simp: World_new_def)
  show ?thesis
    using create_ids_nonnegative [OF reachable.new, of "[cA]"] c reachable.new by blast
qed

text \<open>
  C9: if \<open>insert(e, ...)\<close> is called with \<open>e\<close> equal to the current entity sequence,
  the sequence is not advanced, \<open>e\<close> is live afterwards, and the next \<open>create\<close> (with
  components of distinct types) returns that same id \<open>e\<close>.
\<close>

theorem insert_aliases_next_create:
  "reachable w \<Longrightarrow> e = entitySequence w \<Longrightarrow> distinct (map constructor_name cs') \<Longrightarrow>
     entitySequence (snd (World_insert w e cs)) = e \<and>
     World_exists (snd (World_insert w e cs)) e \<and>
     (\<exists>w'. World_create (snd (World_insert w e cs)) cs' = Some (Inr e, w'))"
proof -
  assume r: "reachable w" and e: "e = entitySequence w" and d: "distinct (map constructor_name cs')"
  have i: "world_inv (snd (World_insert w e cs))"
    using reachable_inv [OF r] by (rule World_insert_props)
  have s: "entitySequence (snd (World_insert w e cs)) = e"
    using World_insert_props(2) [of w e cs] e by simp
  have l: "World_exists (snd (World_insert w e cs)) e"
    using World_insert_props(3) [of w e cs] by (simp add: World_exists_def)
  show ?thesis
    using create_success [OF i d] s l by simp
qed

theorem insert_aliases_next_create_witness:
  "reachable World_new \<and> 0 = entitySequence World_new \<and> distinct (map constructor_name [cB]) \<and>
   entitySequence (snd (World_insert World_new 0 [cA])) = 0 \<and>
   World_exists (snd (World_insert World_new 0 [cA])) 0 \<and>
   (\<exists>w'. World_create (snd (World_insert World_new 0 [cA])) [cB] = Some (Inr 0, w'))"
proof -
  have e: "0 = entitySequence World_new" by (simp add: World_new_def)
  have d: "distinct (map constructor_name [cB])" by simp
  show ?thesis
    using insert_aliases_next_create [OF reachable.new e d, of "[cA]"] reachable.new e d by blast
qed

text \<open>
  C10: when the singleton entity -2 is not yet live, \<open>registerSingleton\<close> makes it a
  live entity: afterwards \<open>exists(-2)\<close> is true, \<open>size()\<close> is one more than before, and
  \<open>all()\<close> yields -2.
\<close>

theorem singleton_becomes_live:
  "singletonEntity \<notin> set (entities w) \<Longrightarrow>
     World_exists (snd (registerSingleton w c)) (- 2) \<and>
     World_size (snd (registerSingleton w c)) = World_size w + 1 \<and>
     - 2 \<in> set (World_all (snd (registerSingleton w c)))"
  by (simp add: registerSingleton_entities World_exists_def World_size_def World_all_def
      set_add_def singletonEntity_def)

theorem singleton_becomes_live_witness:
  "singletonEntity \<notin> set (entities World_new) \<and>
   World_exists (snd (registerSingleton World_new cA)) (- 2) \<and>
   World_size (snd (registerSingleton World_new cA)) = World_size World_new + 1 \<and>
   - 2 \<in> set (World_all (snd (registerSingleton World_new cA)))"
proof -
  have n: "singletonEntity \<notin> set (entities World_new)" by (simp add: World_new_def)
  show ?thesis
    using singleton_becomes_live [OF n, of cA] n by blast
qed

lemma world_ab_eq:
  "world_ab =
     \<lparr>entitySequence = 0, entities = [],
      components = [(''A'', Map.empty), (''B'', Map.empty)],
      indexesByComponent = [''A'' \<mapsto> [0], ''B'' \<mapsto> [0]],
      indexByComponents = Trie None [(''A'', Trie None [(''B'', Trie (Some 0) [])])],
      indexBases = [IndexBase_new [''A'', ''B'']]\<rparr>"
  by (simp add: world_ab_def World_index_def World_new_def register_type_def sort_by_def
      index_indexComponentSpecOrd_def Let_def register_index_def new_iterator_def lookup_index_def
      IndexIteratorBase_new_def observeAddVer_def observeRemVer_def put_index_def IndexBase_new_def)

lemma world_ab_inserted_eq:
  "world_ab_inserted =
     \<lparr>entitySequence = 0, entities = [0],
      components = [(''A'', [0 \<mapsto> cA]), (''B'', Map.empty)],
      indexesByComponent = [''A'' \<mapsto> [0], ''B'' \<mapsto> [0]],
      indexByComponents = Trie None [(''A'', Trie None [(''B'', Trie (Some 0) [])])],
      indexBases = [IndexBase_new [''A'', ''B'']]\<rparr>"
  by (simp add: world_ab_inserted_def world_ab_eq World_insert_def set_add_def World_emplace_def
      store_component_def cA_def Let_def lookup_index_def IndexBase_emplace_def IndexBase_new_def)

lemma create_on_inserted:
  "World_create world_ab_inserted [cB] =
     Some (Inr 0,
       \<lparr>entitySequence = 1, entities = [0],
        components = [(''A'', [0 \<mapsto> cA]), (''B'', [0 \<mapsto> cB])],
        indexesByComponent = [''A'' \<mapsto> [0], ''B'' \<mapsto> [0]],
        indexByComponents = Trie None [(''A'', Trie None [(''B'', Trie (Some 0) [])])],
        indexBases = [IndexBase_new [''A'', ''B'']]\<rparr>)"
  by (simp add: World_create_eq world_ab_inserted_eq create_stored_def set_add_def
      store_component_def cB_def subsequence_values_def Let_def)

lemma removed_from_index [simp]: "entityISByEntity (snd (IndexBase_remove ib e)) e = None"
  by (simp add: IndexBase_remove_def Let_def split: option.splits)








lemma reachable_world_ab: "reachable world_ab"
proof -
  have "apply_op World_new (Index [(''a'', ''A''), (''b'', ''B'')]) = Some world_ab"
    by (simp add: world_ab_def)
  with reachable.new show ?thesis by (rule reachable.step)
qed

lemma reachable_world_ab_inserted: "reachable world_ab_inserted"
proof -
  have "apply_op world_ab (Insert 0 [cA]) = Some world_ab_inserted"
    by (simp add: world_ab_inserted_def)
  with reachable_world_ab show ?thesis by (rule reachable.step)
qed

text \<open>
  C1, at a failing input: after \<open>index({a: A, b: B})\<close>, \<open>insert(0, new A)\<close> and
  \<open>create(new B)\<close> on a new world, \<open>create\<close> has returned the live entity 0 again;
  entity 0 is live and holds both \<open>A\<close> and \<open>B\<close>, and the IndexBase registered for
  \<open>[A, B]\<close> has no record for it.
\<close>

theorem index_coherence_failing_input:
  "\<exists>w. World_create world_ab_inserted [cB] = Some (Inr 0, w) \<and> reachable w \<and>
       World_exists w 0 \<and> World_has w 0 ''A'' \<and> World_has w 0 ''B'' \<and>
       getInTrie (indexByComponents w) [''A'', ''B''] = Some 0 \<and>
       (\<exists>ib. lookup_index w 0 = Some ib \<and> types ib = [''A'', ''B''] \<and>
             entityISByEntity ib 0 = None)"
proof -
  let ?w = "\<lparr>entitySequence = 1, entities = [0],
        components = [(''A'', [0 \<mapsto> cA]), (''B'', [0 \<mapsto> cB])],
        indexesByComponent = [''A'' \<mapsto> [0], ''B'' \<mapsto> [0]],
        indexByComponents = Trie None [(''A'', Trie None [(''B'', Trie (Some 0) [])])],
        indexBases = [IndexBase_new [''A'', ''B'']]\<rparr>"
  have c: "World_create world_ab_inserted [cB] = Some (Inr 0, ?w)"
    by (rule create_on_inserted)
  then have "apply_op world_ab_inserted (Create [cB]) = Some ?w" by simp
  with reachable_world_ab_inserted have r: "reachable ?w" by (rule reachable.step)
  have p: "World_exists ?w 0" "World_has ?w 0 ''A''" "World_has ?w 0 ''B''"
    "getInTrie (indexByComponents ?w) [''A'', ''B''] = Some 0"
    "lookup_index ?w 0 = Some (IndexBase_new [''A'', ''B''])"
    "types (IndexBase_new [''A'', ''B'']) = [''A'', ''B'']"
    "entityISByEntity (IndexBase_new [''A'', ''B'']) 0 = None"
    by (simp_all add: World_exists_def World_has_def lookup_index_def IndexBase_new_def)
  show ?thesis
    using c r p by blast
qed



end
